theory Spec2Isabelle
  imports Main "HOL-Library.Word" "HOL-Library.Multiset" "HOL-Library.Sublist"
begin

section \<open>The filesystem seen by delPack\<close>

text \<open>
  \<open>main.go\<close> touches the filesystem only through \<open>os.Stat\<close>, \<open>filepath.WalkDir\<close>,
  \<open>filepath.Walk\<close> and \<open>os.RemoveAll\<close>. The filesystem is a tree of named entries.
  A path is the list of its components below \<open>/\<close> (the empty list is \<open>/\<close> itself), so
  \<open>filepath.Join path name\<close> is \<open>path @ [name]\<close>. Sizes are Go's \<open>int64\<close>: 64-bit words,
  whose addition wraps.

  Every entry carries three flags that decide which system calls fail on it:
  \<open>statErr\<close> (\<open>lstat\<close> on the entry fails), \<open>readErr\<close> (listing the directory fails; the
  entries of the node are then those that were listed before the failure) and \<open>pinned\<close>
  (the entry cannot be unlinked: permission denied, resource busy). \<open>dsize\<close> is the size
  that \<open>lstat\<close> reports for the entry when it is a directory: it depends on the system
  and is in general not zero. The size of a regular file is its length.

  The entries of a directory are held in the order in which \<open>os.ReadDir\<close> and
  \<open>filepath.Walk\<close> list them, which is sorted by file name.
\<close>

type_synonym path = "string list"
type_synonym int64 = "64 word"

record meta =
  statErr :: bool
  readErr :: bool
  pinned :: bool
  dsize :: int64

datatype node =
    File meta int64
  | Dir meta "(string \<times> node) list"

datatype err = ENOENT | ENOTDIR | EACCES | EREADDIR | EREMOVE

fun node_meta :: "node \<Rightarrow> meta" where
  "node_meta (File m s) = m"
| "node_meta (Dir m es) = m"

fun is_dir :: "node \<Rightarrow> bool" where
  "is_dir (File m s) = False"
| "is_dir (Dir m es) = True"

fun node_size :: "node \<Rightarrow> int64" where
  "node_size (File m s) = s"
| "node_size (Dir m es) = dsize m"

text \<open>\<open>filepath.Base\<close> on a component list; the base name of \<open>/\<close> is \<open>/\<close>.\<close>

fun base :: "path \<Rightarrow> string" where
  "base [] = ''/''"
| "base (c # p) = last (c # p)"

text \<open>
  Name resolution: the entry a path leads to. A missing component is \<open>ENOENT\<close>, a
  component below a regular file is \<open>ENOTDIR\<close>.
\<close>

fun resolve :: "node \<Rightarrow> path \<Rightarrow> err + node" where
  "resolve n [] = Inr n"
| "resolve (File m s) (c # p) = Inl ENOTDIR"
| "resolve (Dir m es) (c # p) =
     (case map_of es c of None \<Rightarrow> Inl ENOENT | Some x \<Rightarrow> resolve x p)"

text \<open>\<open>os.Lstat\<close> (and \<open>os.Stat\<close>: the model has no symbolic links).\<close>

definition os_Lstat :: "node \<Rightarrow> path \<Rightarrow> err + node" where
  "os_Lstat fs p =
     (case resolve fs p of
        Inl e \<Rightarrow> Inl e
      | Inr n \<Rightarrow> if statErr (node_meta n) then Inl EACCES else Inr n)"

text \<open>\<open>os.IsNotExist\<close>.\<close>

definition os_IsNotExist :: "err + 'a \<Rightarrow> bool" where
  "os_IsNotExist r = (case r of Inl e \<Rightarrow> e = ENOENT | Inr _ \<Rightarrow> False)"

subsection \<open>\<open>filepath.WalkDir\<close> and \<open>filepath.Walk\<close>\<close>

text \<open>
  What a walk callback returns: \<open>nil\<close>, \<open>filepath.SkipDir\<close>, or another error. \<open>RPanic\<close>
  stands for the nil dereference of a callback that reads its entry argument although
  the walker passed none.
\<close>

datatype ret = RNil | RSkipDir | RErr err | RPanic

text \<open>An \<open>fs.DirEntry\<close> / \<open>os.FileInfo\<close>: name, directory bit, size.\<close>

record dirent =
  d_name :: string
  d_isdir :: bool
  d_size :: int64

definition entry_of :: "string \<Rightarrow> node \<Rightarrow> dirent" where
  "entry_of name n = \<lparr>d_name = name, d_isdir = is_dir n, d_size = node_size n\<rparr>"

type_synonym 's walkfn = "path \<Rightarrow> dirent option \<Rightarrow> err option \<Rightarrow> 's \<Rightarrow> ret \<times> 's"

text \<open>
  \<open>walkDir\<close> of \<open>path/filepath\<close>: the callback is called on the entry first; a directory
  is then listed, a listing error is reported by a second call, and the listed entries
  are walked in order. \<open>SkipDir\<close> from a directory skips it; \<open>SkipDir\<close> from a
  non-directory ends the loop over its siblings.
\<close>

fun walkDir :: "'s walkfn \<Rightarrow> path \<Rightarrow> string \<Rightarrow> node \<Rightarrow> 's \<Rightarrow> ret \<times> 's"
and walkDirs :: "'s walkfn \<Rightarrow> path \<Rightarrow> (string \<times> node) list \<Rightarrow> 's \<Rightarrow> ret \<times> 's" where
  "walkDir fn p name (File m s) st = fn p (Some (entry_of name (File m s))) None st"
| "walkDir fn p name (Dir m es) st =
     (case fn p (Some (entry_of name (Dir m es))) None st of
        (r, st1) \<Rightarrow>
          if r \<noteq> RNil then (if r = RSkipDir then RNil else r, st1)
          else
            (case (if readErr m then fn p (Some (entry_of name (Dir m es))) (Some EREADDIR) st1
                   else (RNil, st1)) of
               (r2, st2) \<Rightarrow>
                 if r2 \<noteq> RNil then (if r2 = RSkipDir then RNil else r2, st2)
                 else walkDirs fn p es st2))"
| "walkDirs fn p [] st = (RNil, st)"
| "walkDirs fn p ((name, c) # es) st =
     (case walkDir fn (p @ [name]) name c st of
        (r, st1) \<Rightarrow>
          if r = RNil then walkDirs fn p es st1
          else if r = RSkipDir then (RNil, st1)
          else (r, st1))"

definition WalkDir :: "node \<Rightarrow> path \<Rightarrow> 's walkfn \<Rightarrow> 's \<Rightarrow> ret \<times> 's" where
  "WalkDir fs root fn st =
     (case (case os_Lstat fs root of
              Inl e \<Rightarrow> fn root None (Some e) st
            | Inr n \<Rightarrow> walkDir fn root (base root) n st) of
        (r, st1) \<Rightarrow> (if r = RSkipDir then RNil else r, st1))"

text \<open>
  \<open>filepath.Walk\<close>: a directory is listed before the callback sees it, and the callback
  gets the listing error; an unreadable directory is not entered. Each listed name is
  \<open>lstat\<close>ed, and a failing \<open>lstat\<close> is reported to the callback without an entry.
\<close>

fun walk :: "'s walkfn \<Rightarrow> path \<Rightarrow> string \<Rightarrow> node \<Rightarrow> 's \<Rightarrow> ret \<times> 's"
and walks :: "'s walkfn \<Rightarrow> path \<Rightarrow> (string \<times> node) list \<Rightarrow> 's \<Rightarrow> ret \<times> 's" where
  "walk fn p name (File m s) st = fn p (Some (entry_of name (File m s))) None st"
| "walk fn p name (Dir m es) st =
     (case fn p (Some (entry_of name (Dir m es)))
              (if readErr m then Some EREADDIR else None) st of
        (r1, st1) \<Rightarrow>
          if readErr m \<or> r1 \<noteq> RNil then (r1, st1)
          else walks fn p es st1)"
| "walks fn p [] st = (RNil, st)"
| "walks fn p ((name, c) # es) st =
     (if statErr (node_meta c) then
        (case fn (p @ [name]) None (Some EACCES) st of
           (r, st1) \<Rightarrow>
             if r \<noteq> RNil \<and> r \<noteq> RSkipDir then (r, st1)
             else walks fn p es st1)
      else
        (case walk fn (p @ [name]) name c st of
           (r, st1) \<Rightarrow>
             if r \<noteq> RNil \<and> (\<not> is_dir c \<or> r \<noteq> RSkipDir) then (r, st1)
             else walks fn p es st1))"

definition Walk :: "node \<Rightarrow> path \<Rightarrow> 's walkfn \<Rightarrow> 's \<Rightarrow> ret \<times> 's" where
  "Walk fs root fn st =
     (case (case os_Lstat fs root of
              Inl e \<Rightarrow> fn root None (Some e) st
            | Inr n \<Rightarrow> walk fn root (base root) n st) of
        (r, st1) \<Rightarrow> (if r = RSkipDir then RNil else r, st1))"

subsection \<open>\<open>os.RemoveAll\<close>\<close>

text \<open>
  \<open>os.RemoveAll\<close> removes the path and everything below it that it can, and returns an
  error when something remains. A path that does not exist is not an error: it returns
  \<open>nil\<close>. The root \<open>/\<close> itself can be emptied, not removed.

  \<open>rmtree\<close> is what remains of a tree after the removal of all that can be removed:
  nothing (\<open>None\<close>), or the pinned entries with the directories that lead to them.
  \<open>replace_at\<close> puts what remains in the place of the tree.
\<close>

fun rmtree :: "node \<Rightarrow> node option"
and rmentries :: "(string \<times> node) list \<Rightarrow> (string \<times> node) list" where
  "rmtree (File m s) = (if pinned m then Some (File m s) else None)"
| "rmtree (Dir m es) =
     (let es' = rmentries es
      in if es' = [] \<and> \<not> pinned m then None else Some (Dir m es'))"
| "rmentries [] = []"
| "rmentries ((name, c) # es) =
     (case rmtree c of
        None \<Rightarrow> rmentries es
      | Some c' \<Rightarrow> (name, c') # rmentries es)"

fun emptied :: "node \<Rightarrow> node" where
  "emptied (File m s) = File m s"
| "emptied (Dir m es) = Dir m []"

fun replace_at :: "path \<Rightarrow> node option \<Rightarrow> node \<Rightarrow> node"
and replace_entry :: "string \<Rightarrow> path \<Rightarrow> node option \<Rightarrow> (string \<times> node) list \<Rightarrow> (string \<times> node) list" where
  "replace_at [] r n = (case r of None \<Rightarrow> emptied n | Some n' \<Rightarrow> n')"
| "replace_at (c # p) r (File m s) = File m s"
| "replace_at (c # p) r (Dir m es) = Dir m (replace_entry c p r es)"
| "replace_entry c p r [] = []"
| "replace_entry c p r ((name, x) # es) =
     (if name = c then
        (if p = [] then (case r of None \<Rightarrow> es | Some x' \<Rightarrow> (name, x') # es)
         else (name, replace_at p r x) # es)
      else (name, x) # replace_entry c p r es)"

definition os_RemoveAll :: "path \<Rightarrow> node \<Rightarrow> err option \<times> node" where
  "os_RemoveAll p fs =
     (case resolve fs p of
        Inl e \<Rightarrow> (if e = ENOENT then None else Some e, fs)
      | Inr n \<Rightarrow>
          (case rmtree n of
             None \<Rightarrow> (if p = [] then Some EREMOVE else None, replace_at p None fs)
           | Some n' \<Rightarrow> (Some EREMOVE, replace_at p (Some n') fs)))"

subsection \<open>Strings: \<open>strings.TrimSpace\<close>, \<open>strings.ToLower\<close>, \<open>fmt.Scanln\<close>\<close>

text \<open>
  A Go string is a list of bytes, by convention the UTF-8 encoding of a text; a rune is
  a Unicode code point (an \<open>int32\<close>). White space is the same set of runes for \<open>fmt\<close> (its \<open>isSpace\<close>)
  and for \<open>unicode.IsSpace\<close>: U+0009 to U+000D, U+0020, U+0085, U+00A0, U+1680, U+2000
  to U+200A, U+2028, U+2029, U+202F, U+205F and U+3000.
\<close>

type_synonym rune = int

definition spaceRunes :: "rune list" where
  "spaceRunes =
     [0x09, 0x0A, 0x0B, 0x0C, 0x0D, 0x20, 0x85, 0xA0, 0x1680,
      0x2000, 0x2001, 0x2002, 0x2003, 0x2004, 0x2005, 0x2006, 0x2007, 0x2008, 0x2009, 0x200A,
      0x2028, 0x2029, 0x202F, 0x205F, 0x3000]"

definition isSpace :: "rune \<Rightarrow> bool" where
  "isSpace r = (r \<in> set spaceRunes)"

text \<open>
  \<open>utf8.EncodeRune\<close>: the bytes of a rune; a negative value, a surrogate or a value
  beyond U+10FFFF is written as U+FFFD.
\<close>

definition encodeRune :: "rune \<Rightarrow> string" where
  "encodeRune r =
     (if 0 \<le> r \<and> r < 0x80 then [char_of r]
      else if 0 \<le> r \<and> r < 0x800 then [char_of (0xC0 + r div 64), char_of (0x80 + r mod 64)]
      else if r < 0 \<or> (0xD800 \<le> r \<and> r \<le> 0xDFFF) \<or> 0x10FFFF < r
        then [char_of (0xEF :: int), char_of (0xBF :: int), char_of (0xBD :: int)]
      else if r < 0x10000
        then [char_of (0xE0 + r div 4096), char_of (0x80 + r div 64 mod 64),
              char_of (0x80 + r mod 64)]
      else [char_of (0xF0 + r div 262144), char_of (0x80 + r div 4096 mod 64),
            char_of (0x80 + r div 64 mod 64), char_of (0x80 + r mod 64)])"

definition encodeRunes :: "rune list \<Rightarrow> string" where
  "encodeRunes rs = concat (map encodeRune rs)"

text \<open>
  \<open>strings.TrimSpace\<close> cuts the white-space runes off both ends of a string. A string
  starts (ends) with a white-space rune exactly when it starts (ends) with the encoding
  of one: the encodings are valid UTF-8, and none is the tail of the encoding of
  another rune. \<open>strip\<close> cuts off the front every member of a list of byte sequences.
\<close>

definition spaceEncodings :: "string list" where
  "spaceEncodings = map encodeRune spaceRunes"

fun strip :: "string list \<Rightarrow> string \<Rightarrow> string" where
  "strip encs [] = []"
| "strip encs (c # t) =
     (case find (\<lambda>e. take (length e) (c # t) = e) encs of
        None \<Rightarrow> c # t
      | Some e \<Rightarrow> strip encs (drop (length e - 1) t))"

definition TrimSpace :: "string \<Rightarrow> string" where
  "TrimSpace s = rev (strip (map rev spaceEncodings) (rev (strip spaceEncodings s)))"

definition HasPrefix :: "string \<Rightarrow> string \<Rightarrow> bool" where
  "HasPrefix s pre = (take (length pre) s = pre)"

text \<open>
  \<open>strings.ToLower\<close>, on the bytes of a string: \<open>A\<close>..\<open>Z\<close> become \<open>a\<close>..\<open>z\<close>. The bytes of
  the runes outside ASCII are kept as they are, where Go maps such a rune to its lower
  case. \<open>main\<close> only compares the result with \<open>"y"\<close>, and the comparison is the same: in
  \<open>unicode.ToLower\<close> no rune other than \<open>Y\<close> and \<open>y\<close> itself has the lower case \<open>y\<close>.
\<close>

definition lowerChar :: "char \<Rightarrow> char" where
  "lowerChar c =
     (let n = (of_char c :: nat) in if 65 \<le> n \<and> n \<le> 90 then char_of (n + 32) else c)"

definition ToLower :: "string \<Rightarrow> string" where
  "ToLower s = map lowerChar s"

text \<open>
  \<open>fmt.Scanln(&response)\<close> with one string argument, as \<open>main\<close> uses it: the value left
  in \<open>response\<close> (initially empty). The input is the list of the runes that \<open>fmt\<close> reads
  from standard input (it reads an invalid byte as U+FFFD). White space before the
  token is skipped, a newline or the end of input there is an error that stores
  nothing, and the token runs up to the next white-space rune; its runes are written to
  \<open>response\<close> in UTF-8. Text after the token on the same line makes \<open>Scanln\<close> return an
  error after the token has been stored; \<open>main\<close> discards what \<open>Scanln\<close> returns.
\<close>

definition Scanln :: "rune list \<Rightarrow> string" where
  "Scanln inp =
     encodeRunes (takeWhile (\<lambda>r. \<not> isSpace r) (dropWhile (\<lambda>r. isSpace r \<and> r \<noteq> 0x0A) inp))"

section \<open>\<open>main.go\<close>\<close>

subsection \<open>Flags and \<open>readTargets\<close>\<close>

record flags =
  dryRun :: bool
  skipPrompt :: bool
  verbose :: bool
  maxWorkers :: int

text \<open>
  The targets file as \<open>readTargets\<close> meets it: it cannot be opened, reading it fails,
  or it has these lines.
\<close>

datatype tfile = CannotOpen | ReadError | Lines "string list"

datatype fatal =
    InvalidPath
  | PathDoesNotExist
  | CouldNotOpenTargets
  | ErrorReadingTargets
  | NoValidTargets
  | ErrorWalking

definition readTargets :: "tfile \<Rightarrow> fatal + string list" where
  "readTargets f =
     (case f of
        CannotOpen \<Rightarrow> Inl CouldNotOpenTargets
      | ReadError \<Rightarrow> Inl ErrorReadingTargets
      | Lines ls \<Rightarrow>
          (let targets = filter (\<lambda>line. line \<noteq> [] \<and> \<not> HasPrefix line ''#'') (map TrimSpace ls)
           in if length targets = 0 then Inl NoValidTargets else Inr targets))"

subsection \<open>The scan: the callback given to \<open>filepath.WalkDir\<close>\<close>

record scan =
  dirsToDelete :: "path list"
  scanErrors :: "(path \<times> err) list"

definition scan0 :: scan where
  "scan0 = \<lparr>dirsToDelete = [], scanErrors = []\<rparr>"

definition scanFn :: "bool \<Rightarrow> string list \<Rightarrow> scan walkfn" where
  "scanFn verb targets path d e st =
     (case e of
        Some x \<Rightarrow>
          (RNil, if verb then st\<lparr>scanErrors := scanErrors st @ [(path, x)]\<rparr> else st)
      | None \<Rightarrow>
          (case d of
             None \<Rightarrow> (RPanic, st)
           | Some ent \<Rightarrow>
               if \<not> d_isdir ent then (RNil, st)
               else if d_name ent \<in> set targets
                 then (RSkipDir, st\<lparr>dirsToDelete := dirsToDelete st @ [path]\<rparr>)
                 else (RNil, st)))"

definition scanPhase :: "bool \<Rightarrow> string list \<Rightarrow> node \<Rightarrow> path \<Rightarrow> ret \<times> scan" where
  "scanPhase verb targets fs root = WalkDir fs root (scanFn verb targets) scan0"

subsection \<open>\<open>dirSize\<close>\<close>

definition sizeFn :: "int64 walkfn" where
  "sizeFn path info e sz =
     (case e of
        Some x \<Rightarrow> (RNil, sz)
      | None \<Rightarrow>
          (case info of
             None \<Rightarrow> (RPanic, sz)
           | Some i \<Rightarrow> (RNil, if \<not> d_isdir i then sz + d_size i else sz)))"

text \<open>\<open>dirSize\<close> returns the size and the error of \<open>filepath.Walk\<close> (\<open>RNil\<close> is \<open>nil\<close>).\<close>

definition dirSize :: "node \<Rightarrow> path \<Rightarrow> int64 \<times> ret" where
  "dirSize fs path = (case Walk fs path sizeFn 0 of (r, sz) \<Rightarrow> (sz, r))"

subsection \<open>The worker pool\<close>

text \<open>
  Both pools of \<open>main\<close> have the same shape. \<open>main\<close> starts \<open>maxWorkers\<close> goroutines,
  sends every item on a work channel buffered for all of them (so no send blocks),
  closes it, and ranges over the results channel, which a further goroutine closes once
  every worker has returned. A worker ranges over the work channel: it receives an item,
  processes it and sends the result (never blocking: the results channel is buffered
  for all of them), and returns when the channel is closed and empty.

  The interleaving is a schedule: the list of the actors that take the next step. A
  step of an actor that is blocked or has returned changes nothing. Processing an item
  (computing a size, removing a directory) acts on the shared state, the filesystem, and
  is taken as one step together with the sending of its result: the size workers only
  read, and the deletion workers remove candidates, which the scan never nests.
  \<open>None\<close> from the processing function is a panic of the goroutine, which ends the
  program.
\<close>

datatype actor = Main | Worker nat

datatype 'a wstate = Waiting | Holding 'a | Exited

record ('a, 'r, 's) pool =
  unsent :: "'a list"
  closed :: bool
  workChan :: "'a list"
  workers :: "'a wstate list"
  resultsChan :: "'r list"
  shared :: 's
  crashed :: bool

definition pool_init :: "int \<Rightarrow> 'a list \<Rightarrow> 's \<Rightarrow> ('a, 'r, 's) pool" where
  "pool_init w items s =
     \<lparr>unsent = items, closed = False, workChan = [], workers = replicate (nat w) Waiting,
      resultsChan = [], shared = s, crashed = False\<rparr>"

definition main_step :: "('a, 'r, 's) pool \<Rightarrow> ('a, 'r, 's) pool" where
  "main_step p =
     (case unsent p of
        x # xs \<Rightarrow> p\<lparr>unsent := xs, workChan := workChan p @ [x]\<rparr>
      | [] \<Rightarrow> p\<lparr>closed := True\<rparr>)"

definition worker_step ::
  "('a \<Rightarrow> 's \<Rightarrow> ('r \<times> 's) option) \<Rightarrow> nat \<Rightarrow> ('a, 'r, 's) pool \<Rightarrow> ('a, 'r, 's) pool" where
  "worker_step proc i p =
     (if i < length (workers p) then
        (case workers p ! i of
           Waiting \<Rightarrow>
             (case workChan p of
                x # xs \<Rightarrow> p\<lparr>workChan := xs, workers := (workers p)[i := Holding x]\<rparr>
              | [] \<Rightarrow> if closed p then p\<lparr>workers := (workers p)[i := Exited]\<rparr> else p)
         | Holding x \<Rightarrow>
             (case proc x (shared p) of
                None \<Rightarrow> p\<lparr>crashed := True\<rparr>
              | Some (r, s') \<Rightarrow>
                  p\<lparr>resultsChan := resultsChan p @ [r], shared := s',
                    workers := (workers p)[i := Waiting]\<rparr>)
         | Exited \<Rightarrow> p)
      else p)"

definition pool_step ::
  "('a \<Rightarrow> 's \<Rightarrow> ('r \<times> 's) option) \<Rightarrow> actor \<Rightarrow> ('a, 'r, 's) pool \<Rightarrow> ('a, 'r, 's) pool" where
  "pool_step proc a p =
     (if crashed p then p
      else (case a of Main \<Rightarrow> main_step p | Worker i \<Rightarrow> worker_step proc i p))"

definition pool_run ::
  "('a \<Rightarrow> 's \<Rightarrow> ('r \<times> 's) option) \<Rightarrow> actor list \<Rightarrow> ('a, 'r, 's) pool \<Rightarrow> ('a, 'r, 's) pool" where
  "pool_run proc sched p = fold (pool_step proc) sched p"

text \<open>
  The results channel is closed, and the collecting loop of \<open>main\<close> ends, when \<open>main\<close>
  has sent everything and closed the work channel and every worker has returned.
\<close>

definition finished :: "('a, 'r, 's) pool \<Rightarrow> bool" where
  "finished p =
     (\<not> crashed p \<and> unsent p = [] \<and> closed p \<and> list_all (\<lambda>w. w = Exited) (workers p))"

datatype 'x ended = Hangs | Panics | Returns 'x

text \<open>
  A pool under a schedule: how it ends (with the results in their order of arrival when
  it returns) and the shared state it leaves.
\<close>

definition pool ::
  "('a \<Rightarrow> 's \<Rightarrow> ('r \<times> 's) option) \<Rightarrow> int \<Rightarrow> 'a list \<Rightarrow> actor list \<Rightarrow> 's \<Rightarrow> 'r list ended \<times> 's" where
  "pool proc w items sched s =
     (let p = pool_run proc sched (pool_init w items s)
      in (if crashed p then Panics
          else if finished p then Returns (resultsChan p)
          else Hangs, shared p))"

subsection \<open>The size phase\<close>

record sizeResult =
  sr_path :: path
  sr_size :: int64
  sr_err :: ret

text \<open>The body of a size worker's loop; a panic inside \<open>dirSize\<close> is a panic of the worker.\<close>

definition sizeWorker :: "path \<Rightarrow> node \<Rightarrow> (sizeResult \<times> node) option" where
  "sizeWorker path fs =
     (case dirSize fs path of
        (sz, e) \<Rightarrow>
          if e = RPanic then None
          else if e \<noteq> RNil then Some (\<lparr>sr_path = path, sr_size = 0, sr_err = e\<rparr>, fs)
          else Some (\<lparr>sr_path = path, sr_size = sz, sr_err = RNil\<rparr>, fs))"

record sizes =
  totalSize :: int64
  dirSizes :: "int64 list"
  sizeErrors :: "(path \<times> ret) list"

definition sizes0 :: sizes where
  "sizes0 = \<lparr>totalSize = 0, dirSizes = [], sizeErrors = []\<rparr>"

text \<open>The body of the loop that collects the size results, in their order of arrival.\<close>

definition collectSize :: "bool \<Rightarrow> sizeResult \<Rightarrow> sizes \<Rightarrow> sizes" where
  "collectSize verb result acc =
     (let result' = (if sr_err result \<noteq> RNil then result\<lparr>sr_size := 0\<rparr> else result)
      in \<lparr>totalSize = totalSize acc + sr_size result',
          dirSizes = dirSizes acc @ [sr_size result'],
          sizeErrors =
            (if sr_err result \<noteq> RNil \<and> verb
             then sizeErrors acc @ [(sr_path result, sr_err result)]
             else sizeErrors acc)\<rparr>)"

subsection \<open>The deletion phase\<close>

record deleteResult =
  dr_index :: nat
  dr_err :: "err option"

text \<open>
  The body of a deletion worker's loop. \<open>dirsToDelete[index]\<close> out of range is a panic.
\<close>

definition deleteWorker :: "path list \<Rightarrow> nat \<Rightarrow> node \<Rightarrow> (deleteResult \<times> node) option" where
  "deleteWorker dirs index fs =
     (if index < length dirs then
        (case os_RemoveAll (dirs ! index) fs of
           (e, fs') \<Rightarrow> Some (\<lparr>dr_index = index, dr_err = e\<rparr>, fs'))
      else None)"

record deletion =
  deletedCount :: nat
  deletedSize :: int64
  deleteErrors :: "(path \<times> err) list"

definition deletion0 :: deletion where
  "deletion0 = \<lparr>deletedCount = 0, deletedSize = 0, deleteErrors = []\<rparr>"

text \<open>
  The body of the loop that collects the deletion results; \<open>None\<close> is the panic of an
  index out of range in \<open>dirsToDelete[result.index]\<close> or \<open>dirSizes[result.index]\<close>.
\<close>

definition collectDelete ::
  "path list \<Rightarrow> int64 list \<Rightarrow> deleteResult \<Rightarrow> deletion option \<Rightarrow> deletion option" where
  "collectDelete dirs dsizes result acc =
     (case acc of
        None \<Rightarrow> None
      | Some a \<Rightarrow>
          (case dr_err result of
             Some e \<Rightarrow>
               if dr_index result < length dirs
               then Some (a\<lparr>deleteErrors := deleteErrors a @ [(dirs ! dr_index result, e)]\<rparr>)
               else None
           | None \<Rightarrow>
               if dr_index result < length dirs \<and> dr_index result < length dsizes
               then Some (a\<lparr>deletedCount := deletedCount a + 1,
                            deletedSize := deletedSize a + dsizes ! dr_index result\<rparr>)
               else None))"

subsection \<open>\<open>main\<close>\<close>

text \<open>
  How a run ends. \<open>Hung\<close> is a run whose schedule never lets a pool finish, \<open>Panicked\<close> a
  run-time panic.
\<close>

datatype outcome =
    Fatal fatal
  | NoTargetsFound
  | DryRunCompleted sizes
  | Cancelled sizes
  | Completed sizes deletion
  | Hung
  | Panicked

text \<open>
  The answer at the prompt: \<open>fmt.Scanln(&response)\<close>, then
  \<open>strings.ToLower(response) != "y"\<close> cancels. With \<open>-y\<close> nothing is read.
\<close>

definition confirmed :: "flags \<Rightarrow> rune list \<Rightarrow> bool" where
  "confirmed fl stdin = (if \<not> skipPrompt fl then ToLower (Scanln stdin) = ''y'' else True)"

text \<open>The deletion pool and the loop that collects its results, up to the final report.\<close>

definition deletePhase :: "flags \<Rightarrow> path list \<Rightarrow> sizes \<Rightarrow> actor list \<Rightarrow> node \<Rightarrow> outcome \<times> node" where
  "deletePhase fl dirs sz sched fs =
     (case pool (deleteWorker dirs) (maxWorkers fl) [0..<length dirs] sched fs of
        (Hangs, fs2) \<Rightarrow> (Hung, fs2)
      | (Panics, fs2) \<Rightarrow> (Panicked, fs2)
      | (Returns dresults, fs2) \<Rightarrow>
          (case fold (collectDelete dirs (dirSizes sz)) dresults (Some deletion0) of
             None \<Rightarrow> (Panicked, fs2)
           | Some d \<Rightarrow> (Completed sz d, fs2)))"

text \<open>
  \<open>main\<close> from the summary on: the dry run ends here, the prompt may cancel, and
  otherwise the deletion runs.
\<close>

definition afterSummary ::
  "flags \<Rightarrow> rune list \<Rightarrow> path list \<Rightarrow> sizes \<Rightarrow> actor list \<Rightarrow> node \<Rightarrow> outcome \<times> node" where
  "afterSummary fl stdin dirs sz sched fs =
     (if dryRun fl then (DryRunCompleted sz, fs)
      else if \<not> confirmed fl stdin then (Cancelled sz, fs)
      else deletePhase fl dirs sz sched fs)"

text \<open>
  A run of \<open>main\<close>: the flags, the result of \<open>filepath.Abs(rootPath)\<close>, the targets file,
  what the user types at the prompt (the runes read from standard input), the schedules
  of the two pools and the filesystem give the way the run ends and the filesystem it
  leaves.
\<close>

definition main ::
  "flags \<Rightarrow> path option \<Rightarrow> tfile \<Rightarrow> rune list \<Rightarrow> actor list \<Rightarrow> actor list \<Rightarrow> node \<Rightarrow> outcome \<times> node" where
  "main fl absRoot tf stdin sched1 sched2 fs =
     (case absRoot of
        None \<Rightarrow> (Fatal InvalidPath, fs)
      | Some root \<Rightarrow>
          if os_IsNotExist (os_Lstat fs root) then (Fatal PathDoesNotExist, fs)
          else
            (case readTargets tf of
               Inl e \<Rightarrow> (Fatal e, fs)
             | Inr targets \<Rightarrow>
                 (case scanPhase (verbose fl) targets fs root of
                    (r, sc) \<Rightarrow>
                      if r = RPanic then (Panicked, fs)
                      else if r \<noteq> RNil then (Fatal ErrorWalking, fs)
                      else if length (dirsToDelete sc) = 0 then (NoTargetsFound, fs)
                      else
                        (case pool sizeWorker (maxWorkers fl) (dirsToDelete sc) sched1 fs of
                           (Hangs, fs1) \<Rightarrow> (Hung, fs1)
                         | (Panics, fs1) \<Rightarrow> (Panicked, fs1)
                         | (Returns results, fs1) \<Rightarrow>
                             afterSummary fl stdin (dirsToDelete sc)
                               (fold (collectSize (verbose fl)) results sizes0) sched2 fs1))))"

section \<open>Notions of the specification\<close>

text \<open>The first white-space-delimited token of a line of runes.\<close>

definition first_token :: "rune list \<Rightarrow> rune list" where
  "first_token line = takeWhile (\<lambda>r. \<not> isSpace r) (dropWhile isSpace line)"

text \<open>The runes of an ASCII text: its bytes.\<close>

definition runes_of :: "string \<Rightarrow> rune list" where
  "runes_of s = map of_char s"

text \<open>
  A tree whose directories hold their entries in the order of a listing: sorted by file
  name, the names compared as byte strings and all different.
\<close>

fun name_less :: "string \<Rightarrow> string \<Rightarrow> bool" where
  "name_less [] [] = False"
| "name_less [] (b # t) = True"
| "name_less (a # s) [] = False"
| "name_less (a # s) (b # t) =
     ((of_char a :: nat) < of_char b \<or> (a = b \<and> name_less s t))"

fun listed_in_order :: "node \<Rightarrow> bool"
and listed_in_order_in :: "(string \<times> node) list \<Rightarrow> bool" where
  "listed_in_order (File m s) = True"
| "listed_in_order (Dir m es) = (sorted_wrt name_less (map fst es) \<and> listed_in_order_in es)"
| "listed_in_order_in [] = True"
| "listed_in_order_in ((name, c) # es) = (listed_in_order c \<and> listed_in_order_in es)"

text \<open>
  The bytes of the non-directory entries that a walk from a node can reach: nothing
  below a directory that cannot be listed, nothing for an entry whose \<open>lstat\<close> fails.
\<close>

fun acc_bytes :: "node \<Rightarrow> int64"
and acc_entries :: "(string \<times> node) list \<Rightarrow> int64" where
  "acc_bytes (File m s) = s"
| "acc_bytes (Dir m es) = (if readErr m then 0 else acc_entries es)"
| "acc_entries [] = 0"
| "acc_entries ((name, c) # es) =
     (if statErr (node_meta c) then 0 else acc_bytes c) + acc_entries es"

definition accessible_bytes :: "node \<Rightarrow> path \<Rightarrow> int64" where
  "accessible_bytes fs p = (case os_Lstat fs p of Inl e \<Rightarrow> 0 | Inr n \<Rightarrow> acc_bytes n)"

text \<open>
  The traversal errors of a walk: what \<open>filepath.Walk\<close> hands to a callback that only
  records the errors it is given and goes on.
\<close>

definition errFn :: "(path \<times> err) list walkfn" where
  "errFn p info e st = (RNil, case e of Some x \<Rightarrow> st @ [(p, x)] | None \<Rightarrow> st)"

definition traversal_errors :: "node \<Rightarrow> path \<Rightarrow> (path \<times> err) list" where
  "traversal_errors fs p = snd (Walk fs p errFn [])"

text \<open>
  The matched directories of a tree that have no matched directory above them, in the
  order of the walk: a directory whose name is a target is listed and nothing below it
  is looked at.
\<close>

fun top_matches :: "string list \<Rightarrow> path \<Rightarrow> string \<Rightarrow> node \<Rightarrow> path list"
and top_matches_in :: "string list \<Rightarrow> path \<Rightarrow> (string \<times> node) list \<Rightarrow> path list" where
  "top_matches ts p name (File m s) = []"
| "top_matches ts p name (Dir m es) = (if name \<in> set ts then [p] else top_matches_in ts p es)"
| "top_matches_in ts p [] = []"
| "top_matches_in ts p ((name, c) # es) =
     top_matches ts (p @ [name]) name c @ top_matches_in ts p es"

text \<open>
  The paths that cannot be accessed during the scan: the directories outside every
  matched directory whose listing fails, and the root when its \<open>lstat\<close> fails.
\<close>

fun unreadable :: "string list \<Rightarrow> path \<Rightarrow> string \<Rightarrow> node \<Rightarrow> (path \<times> err) list"
and unreadable_in :: "string list \<Rightarrow> path \<Rightarrow> (string \<times> node) list \<Rightarrow> (path \<times> err) list" where
  "unreadable ts p name (File m s) = []"
| "unreadable ts p name (Dir m es) =
     (if name \<in> set ts then []
      else (if readErr m then [(p, EREADDIR)] else []) @ unreadable_in ts p es)"
| "unreadable_in ts p [] = []"
| "unreadable_in ts p ((name, c) # es) =
     unreadable ts (p @ [name]) name c @ unreadable_in ts p es"

definition scan_matches :: "string list \<Rightarrow> node \<Rightarrow> path \<Rightarrow> path list" where
  "scan_matches ts fs root =
     (case os_Lstat fs root of Inl e \<Rightarrow> [] | Inr n \<Rightarrow> top_matches ts root (base root) n)"

definition access_errors :: "string list \<Rightarrow> node \<Rightarrow> path \<Rightarrow> (path \<times> err) list" where
  "access_errors ts fs root =
     (case os_Lstat fs root of
        Inl e \<Rightarrow> [(root, e)]
      | Inr n \<Rightarrow> unreadable ts root (base root) n)"

text \<open>The paths of all the directories of a tree, the root of the tree included.\<close>

fun dir_paths :: "path \<Rightarrow> node \<Rightarrow> path list"
and dir_paths_in :: "path \<Rightarrow> (string \<times> node) list \<Rightarrow> path list" where
  "dir_paths p (File m s) = []"
| "dir_paths p (Dir m es) = p # dir_paths_in p es"
| "dir_paths_in p [] = []"
| "dir_paths_in p ((name, c) # es) = dir_paths (p @ [name]) c @ dir_paths_in p es"

text \<open>No directory of the tree has two entries of the same name.\<close>

fun distinct_names :: "node \<Rightarrow> bool"
and distinct_names_in :: "(string \<times> node) list \<Rightarrow> bool" where
  "distinct_names (File m s) = True"
| "distinct_names (Dir m es) = (distinct (map fst es) \<and> distinct_names_in es)"
| "distinct_names_in [] = True"
| "distinct_names_in ((name, c) # es) = (distinct_names c \<and> distinct_names_in es)"

text \<open>
  A directory \<open>q\<close> of the tree walked from \<open>root\<close> lies beneath a matched directory when
  a path from \<open>root\<close> down to \<open>q\<close>, other than \<open>q\<close>, has a target name.
\<close>

definition beneath_match :: "string list \<Rightarrow> path \<Rightarrow> path \<Rightarrow> bool" where
  "beneath_match ts root q =
     (\<exists>a \<in> set (prefixes q). prefix root a \<and> a \<noteq> q \<and> base a \<in> set ts)"

text \<open>The ways a run ends before any deletion: a fatal error, nothing found, the dry-run summary.\<close>

fun ends_before_deletion :: "outcome \<Rightarrow> bool" where
  "ends_before_deletion (Fatal f) = True"
| "ends_before_deletion NoTargetsFound = True"
| "ends_before_deletion (DryRunCompleted sz) = True"
| "ends_before_deletion other = False"

text \<open>The result a size worker sends for a candidate on a filesystem.\<close>

definition size_result_of :: "node \<Rightarrow> path \<Rightarrow> sizeResult" where
  "size_result_of fs p = \<lparr>sr_path = p, sr_size = accessible_bytes fs p, sr_err = RNil\<rparr>"

text \<open>A path that leads to no entry of the filesystem.\<close>

definition gone :: "node \<Rightarrow> path \<Rightarrow> bool" where
  "gone fs p = (case resolve fs p of Inl e \<Rightarrow> True | Inr n \<Rightarrow> False)"

section \<open>Notions for the worker pool\<close>

text \<open>The items still inside a pool: not yet sent, in the work channel, or held by a worker.\<close>

definition pool_items :: "('a, 'r, 's) pool \<Rightarrow> 'a set" where
  "pool_items p = set (unsent p) \<union> set (workChan p) \<union> {x. Holding x \<in> set (workers p)}"

text \<open>A measure that every step of an actor that is not blocked decreases.\<close>

fun wcost :: "'a wstate \<Rightarrow> nat" where
  "wcost Waiting = 1"
| "wcost (Holding x) = 2"
| "wcost Exited = 0"

definition pool_measure :: "('a, 'r, 's) pool \<Rightarrow> nat" where
  "pool_measure p =
     4 * length (unsent p) + (if closed p then 0 else 1) + 3 * length (workChan p)
       + sum_list (map wcost (workers p))"

text \<open>The items still inside a pool, counted: an item sent twice is there twice.\<close>

fun wheld :: "'a wstate \<Rightarrow> 'a multiset" where
  "wheld Waiting = {#}"
| "wheld (Holding x) = {#x#}"
| "wheld Exited = {#}"

definition pool_pending :: "('a, 'r, 's) pool \<Rightarrow> 'a multiset" where
  "pool_pending p = mset (unsent p) + mset (workChan p) + sum_list (map wheld (workers p))"

text \<open>
  The work channel is closed only after everything is sent, and a worker returns only
  from a work channel that is closed and empty.
\<close>

definition pool_inv :: "('a, 'r, 's) pool \<Rightarrow> bool" where
  "pool_inv p =
     ((closed p \<longrightarrow> unsent p = [])
      \<and> (Exited \<in> set (workers p) \<longrightarrow> closed p \<and> workChan p = []))"

text \<open>The items of a pool with a single worker, in the order in which their results will arrive.\<close>

fun wheld_list :: "'a wstate \<Rightarrow> 'a list" where
  "wheld_list Waiting = []"
| "wheld_list (Holding x) = [x]"
| "wheld_list Exited = []"

definition pool_queue :: "('a, 'r, 's) pool \<Rightarrow> 'a list" where
  "pool_queue p = concat (map wheld_list (workers p)) @ workChan p @ unsent p"

section \<open>Example inputs\<close>

text \<open>An entry on which no system call fails; as a directory it has 4096 bytes.\<close>

definition m0 :: meta where
  "m0 = \<lparr>statErr = False, readErr = False, pinned = False, dsize = 4096\<rparr>"

definition flags_prompt :: flags where
  "flags_prompt = \<lparr>dryRun = False, skipPrompt = False, verbose = False, maxWorkers = 1\<rparr>"

definition flags_dry :: flags where
  "flags_dry = \<lparr>dryRun = True, skipPrompt = True, verbose = False, maxWorkers = 1\<rparr>"

definition flags_no_workers :: flags where
  "flags_no_workers = \<lparr>dryRun = False, skipPrompt = True, verbose = False, maxWorkers = 0\<rparr>"

definition flags_two :: flags where
  "flags_two = \<lparr>dryRun = False, skipPrompt = True, verbose = False, maxWorkers = 2\<rparr>"

definition sched_one :: "actor list" where
  "sched_one = [Main, Main, Worker 0, Worker 0, Worker 0]"

text \<open>
  Two schedules of a pool of two workers on two items. In both, worker 0 receives the
  first item and worker 1 the second; in \<open>sched_fifo\<close> worker 0 sends its result first,
  in \<open>sched_swap\<close> worker 1 does.
\<close>

definition sched_fifo :: "actor list" where
  "sched_fifo =
     [Main, Main, Main, Worker 0, Worker 1, Worker 0, Worker 1, Worker 0, Worker 1]"

definition sched_swap :: "actor list" where
  "sched_swap =
     [Main, Main, Main, Worker 0, Worker 1, Worker 1, Worker 0, Worker 0, Worker 1]"

definition fs_one_dist :: node where
  "fs_one_dist = Dir m0 [(''proj'', Dir m0 [(''dist'', Dir m0 [(''b'', File m0 200)])])]"

definition fs_root_file :: node where
  "fs_root_file = Dir m0 [(''notes.txt'', File m0 7)]"

definition fs_locked_sub :: node where
  "fs_locked_sub =
     Dir m0 [(''proj'', Dir m0 [(''dist'', Dir m0
        [(''a'', File m0 200),
         (''locked'', Dir (m0\<lparr>readErr := True\<rparr>) []),
         (''z'', File m0 50)])])]"


definition fs_nested :: node where
  "fs_nested =
     Dir m0 [(''proj'', Dir m0
        [(''Dist'', Dir m0 [(''x'', File m0 1)]),
         (''web'', Dir m0 [(''dist'', Dir m0 [(''node_modules'', Dir m0 [(''b'', File m0 200)])])])])]"

text \<open>
  Two candidates, in the order of the listing: \<open>proj/dist\<close> (200 bytes, with a file that
  cannot be removed) and \<open>proj/node_modules\<close> (100 bytes).
\<close>

definition fs_two :: node where
  "fs_two =
     Dir m0 [(''proj'', Dir m0
        [(''dist'', Dir m0 [(''b'', File (m0\<lparr>pinned := True\<rparr>) 200)]),
         (''node_modules'', Dir m0 [(''a'', File m0 100)])])]"

section \<open>The confirmation prompt\<close>

lemma isSpace_newline: "isSpace 0x0A"
  by (simp add: isSpace_def spaceRunes_def)

lemma Scanln_line:
  assumes "0x0A \<notin> set line"
  shows "Scanln (line @ 0x0A # rest) = encodeRunes (first_token line)"
proof -
  let ?P = "\<lambda>r. isSpace r \<and> r \<noteq> 0x0A"
  have eqP: "dropWhile ?P line = dropWhile isSpace line" using assms
    by (intro dropWhile_cong) auto
  show ?thesis
  proof (cases "\<forall>r\<in>set line. isSpace r")
    case True
    then have "\<forall>r\<in>set line. ?P r" using assms by auto
    then have a: "dropWhile ?P (line @ 0x0A # rest) = 0x0A # rest"
      by (simp add: dropWhile_append)
    have b: "dropWhile isSpace line = []" using True by simp
    show ?thesis
      unfolding Scanln_def first_token_def a b by (simp add: isSpace_newline)
  next
    case False
    then obtain r where r: "r \<in> set line" "\<not> ?P r" by auto
    then have d: "dropWhile ?P (line @ 0x0A # rest) = dropWhile ?P line @ 0x0A # rest"
      by (simp add: dropWhile_append1)
    have "takeWhile (\<lambda>r. \<not> isSpace r) (dropWhile isSpace line @ 0x0A # rest)
          = takeWhile (\<lambda>r. \<not> isSpace r) (dropWhile isSpace line)"
      by (rule takeWhile_tail) (simp add: isSpace_newline)
    then show ?thesis by (simp add: Scanln_def first_token_def d eqP)
  qed
qed

lemma Scanln_eof:
  assumes "0x0A \<notin> set line"
  shows "Scanln line = encodeRunes (first_token line)"
proof -
  have "dropWhile (\<lambda>r. isSpace r \<and> r \<noteq> 0x0A) line = dropWhile isSpace line" using assms
    by (intro dropWhile_cong) auto
  then show ?thesis by (simp add: Scanln_def first_token_def)
qed

lemma lowerChar_y: "lowerChar c = CHR ''y'' \<longleftrightarrow> c = CHR ''y'' \<or> c = CHR ''Y''"
proof -
  have l: "(of_char (lowerChar c) :: nat) =
      (if 65 \<le> (of_char c :: nat) \<and> (of_char c :: nat) \<le> 90 then of_char c + 32 else of_char c)"
    by (simp add: lowerChar_def Let_def)
  have e: "\<And>a b. a = b \<longleftrightarrow> (of_char a :: nat) = of_char b"
    by simp
  show ?thesis
    unfolding e[of "lowerChar c"] e[of c] l by (simp split: if_splits) arith
qed

lemma ToLower_y: "ToLower t = ''y'' \<longleftrightarrow> t = ''y'' \<or> t = ''Y''"
  by (cases t) (auto simp: ToLower_def lowerChar_y)

lemma encodeRune_nonempty: "encodeRune r \<noteq> []"
  by (simp add: encodeRune_def)

lemma encodeRune_single:
  "encodeRune r = [c] \<longleftrightarrow> 0 \<le> r \<and> r < 0x80 \<and> c = char_of r"
  by (auto simp: encodeRune_def)

lemma char_of_ascii:
  assumes "0 \<le> r" "r < 0x80"
  shows "char_of r = c \<longleftrightarrow> r = (of_char c :: int)"
proof
  assume "char_of r = c"
  then have "(of_char c :: int) = of_char (char_of r)" by simp
  also have "\<dots> = r mod 256" by (rule of_char_of)
  also have "\<dots> = r" using assms by simp
  finally show "r = of_char c" by simp
next
  assume "r = of_char c"
  then show "char_of r = c" by simp
qed

lemma encodeRunes_single:
  "encodeRunes t = [c] \<longleftrightarrow> (\<exists>r. t = [r] \<and> encodeRune r = [c])"
proof (cases t)
  case Nil
  then show ?thesis by (simp add: encodeRunes_def)
next
  case (Cons r t')
  show ?thesis
  proof (cases t')
    case Nil
    then show ?thesis using Cons by (simp add: encodeRunes_def)
  next
    case (Cons r' t'')
    have "2 \<le> length (encodeRunes t)"
      using encodeRune_nonempty [of r] encodeRune_nonempty [of r'] \<open>t = r # t'\<close> Cons
      by (cases "encodeRune r"; cases "encodeRune r'") (simp_all add: encodeRunes_def)
    then show ?thesis using \<open>t = r # t'\<close> Cons by auto
  qed
qed

lemma ToLower_encodeRunes_y:
  "ToLower (encodeRunes t) = ''y'' \<longleftrightarrow> t = [0x79] \<or> t = [0x59]"
proof -
  have y: "encodeRune r = ''y'' \<longleftrightarrow> r = 0x79" for r
    using char_of_ascii [of r "CHR ''y''"] by (auto simp: encodeRune_single)
  have Y: "encodeRune r = ''Y'' \<longleftrightarrow> r = 0x59" for r
    using char_of_ascii [of r "CHR ''Y''"] by (auto simp: encodeRune_single)
  show ?thesis
    unfolding ToLower_y encodeRunes_single y Y by auto
qed

text \<open>
  Claim C9, as amended. When the prompt is shown (no dry run, no \<open>-y\<close>) and the user
  answers with a line, the deletion proceeds exactly when the first
  white-space-delimited token of the line, lowercased, is \<open>y\<close>, that is when the token
  is \<open>y\<close> or \<open>Y\<close>; every other answer cancels and leaves the filesystem as it is. What
  follows the token on the line does not matter: \<open>Y es\<close> proceeds. The line is any
  list of runes, and white space is Unicode white space.
\<close>

theorem confirmation_by_first_token:
  assumes "\<not> dryRun fl" and "\<not> skipPrompt fl" and "0x0A \<notin> set line"
    and "inp = line \<or> inp = line @ 0x0A # rest"
  shows "afterSummary fl inp dirs sz sched fs =
           (if ToLower (encodeRunes (first_token line)) = ''y''
            then deletePhase fl dirs sz sched fs else (Cancelled sz, fs))
         \<and> (ToLower (encodeRunes (first_token line)) = ''y''
              \<longleftrightarrow> first_token line = [0x79] \<or> first_token line = [0x59])"
proof -
  have "Scanln inp = encodeRunes (first_token line)"
    using assms(3,4) Scanln_line Scanln_eof by blast
  then show ?thesis
    using assms(1,2) by (simp add: afterSummary_def confirmed_def ToLower_encodeRunes_y)
qed

theorem confirmation_by_first_token_witness:
  "\<not> dryRun flags_prompt \<and> \<not> skipPrompt flags_prompt
   \<and> 0x0A \<notin> set (runes_of ''Y es'')
   \<and> afterSummary flags_prompt (runes_of ''Y es'' @ 0x0A # []) [[''proj'', ''dist'']] sizes0 sched_one
        fs_one_dist
       = deletePhase flags_prompt [[''proj'', ''dist'']] sizes0 sched_one fs_one_dist
   \<and> afterSummary flags_prompt ([0x79, 0xA0, 0x65, 0x73] @ 0x0A # []) [[''proj'', ''dist'']] sizes0
        sched_one fs_one_dist
       = deletePhase flags_prompt [[''proj'', ''dist'']] sizes0 sched_one fs_one_dist
   \<and> afterSummary flags_prompt (runes_of ''yes'' @ 0x0A # []) [[''proj'', ''dist'']] sizes0 sched_one
        fs_one_dist
       = (Cancelled sizes0, fs_one_dist)
   \<and> afterSummary flags_prompt ([] @ 0x0A # []) [[''proj'', ''dist'']] sizes0 sched_one fs_one_dist
       = (Cancelled sizes0, fs_one_dist)"
proof -
  have h1: "\<not> dryRun flags_prompt" and h2: "\<not> skipPrompt flags_prompt"
    by (simp_all add: flags_prompt_def)
  have n1: "0x0A \<notin> set (runes_of ''Y es'')" and n2: "0x0A \<notin> set (runes_of ''yes'')"
    and n3: "0x0A \<notin> set ([] :: rune list)" and n4: "0x0A \<notin> set [0x79, 0xA0, 0x65, 0x73 :: rune]"
    by (simp_all add: runes_of_def)
  have t1: "first_token (runes_of ''Y es'') = [0x59]"
    and t2: "first_token (runes_of ''yes'') = [0x79, 0x65, 0x73]"
    and t3: "first_token [] = []"
    and t4: "first_token [0x79, 0xA0, 0x65, 0x73] = [0x79]"
    by (simp_all add: first_token_def runes_of_def isSpace_def spaceRunes_def)
  note a = confirmation_by_first_token [OF h1 h2 n1 disjI2 [OF refl], of "[]"]
    and b = confirmation_by_first_token [OF h1 h2 n2 disjI2 [OF refl], of "[]"]
    and c = confirmation_by_first_token [OF h1 h2 n3 disjI2 [OF refl], of "[]"]
    and d = confirmation_by_first_token [OF h1 h2 n4 disjI2 [OF refl], of "[]"]
  show ?thesis
    using h1 h2 n1 a b c d unfolding t1 t2 t3 t4 by (simp add: ToLower_encodeRunes_y)
qed

text \<open>
  The claim as stated fails: a user who answers \<open>Y es\<close> is not cancelled; the run
  deletes the directory found.
\<close>

theorem confirmation_Y_es_counterexample:
  "main flags_prompt (Some [''proj'']) (Lines [''dist'']) (runes_of ''Y es'' @ [0x0A]) sched_one sched_one
     fs_one_dist
   = (Completed \<lparr>totalSize = 200, dirSizes = [200], sizeErrors = []\<rparr>
        \<lparr>deletedCount = 1, deletedSize = 200, deleteErrors = []\<rparr>,
      Dir m0 [(''proj'', Dir m0 [])])"
  by code_simp

section \<open>Validation of the root path\<close>

lemma IsNotExist_Lstat: "os_IsNotExist (os_Lstat fs p) \<longleftrightarrow> resolve fs p = Inl ENOENT"
  by (simp add: os_IsNotExist_def os_Lstat_def split: sum.splits)

lemma readTargets_error:
  "readTargets tf = Inl e \<Longrightarrow> e = CouldNotOpenTargets \<or> e = ErrorReadingTargets \<or> e = NoValidTargets"
  by (auto simp: readTargets_def Let_def split: tfile.splits if_splits)

lemma deletePhase_not_Fatal: "fst (deletePhase fl dirs sz sched fs) \<noteq> Fatal f"
  by (simp add: deletePhase_def split: prod.splits ended.splits option.splits)

lemma afterSummary_not_Fatal: "fst (afterSummary fl inp dirs sz sched fs) \<noteq> Fatal f"
  by (simp add: afterSummary_def deletePhase_not_Fatal)

lemma main_PathDoesNotExist:
  "main fl (Some root) tf inp s1 s2 fs = (Fatal PathDoesNotExist, fs)
     \<longleftrightarrow> resolve fs root = Inl ENOENT"
proof (cases "resolve fs root = Inl ENOENT")
  case True
  then show ?thesis by (simp add: main_def IsNotExist_Lstat)
next
  case False
  have "fst (main fl (Some root) tf inp s1 s2 fs) \<noteq> Fatal PathDoesNotExist"
    using False readTargets_error [of tf] afterSummary_not_Fatal
    by (auto simp: main_def IsNotExist_Lstat split: sum.splits prod.splits ended.splits)
  then show ?thesis using False by auto
qed

lemma scan_root_file:
  assumes "resolve fs root = Inr (File m sz)"
  shows "scanPhase v ts fs root = (RNil, if v \<and> statErr m then scan0\<lparr>scanErrors := [(root, EACCES)]\<rparr> else scan0)"
  using assms
  by (simp add: scanPhase_def WalkDir_def os_Lstat_def scanFn_def entry_of_def scan0_def)

text \<open>
  Claim C3, as amended. The run fails fast with "path does not exist" exactly when the
  resolved root path does not exist, that is when \<open>os.Stat\<close> on it fails with \<open>ENOENT\<close>.
  A root path that exists but is a regular file is not fatal: the walk finds nothing
  there and the run ends with "no target directories found", the filesystem untouched.
\<close>

theorem root_path_must_only_exist:
  "(main fl (Some root) tf inp s1 s2 fs = (Fatal PathDoesNotExist, fs)
      \<longleftrightarrow> resolve fs root = Inl ENOENT)
   \<and> (\<forall>m sz ts. resolve fs root = Inr (File m sz) \<longrightarrow> readTargets tf = Inr ts
         \<longrightarrow> main fl (Some root) tf inp s1 s2 fs = (NoTargetsFound, fs))"
proof (intro conjI allI impI)
  show "main fl (Some root) tf inp s1 s2 fs = (Fatal PathDoesNotExist, fs)
          \<longleftrightarrow> resolve fs root = Inl ENOENT"
    by (rule main_PathDoesNotExist)
next
  fix m sz ts
  assume r: "resolve fs root = Inr (File m sz)" and t: "readTargets tf = Inr ts"
  show "main fl (Some root) tf inp s1 s2 fs = (NoTargetsFound, fs)"
    by (simp add: main_def IsNotExist_Lstat r t scan_root_file [OF r] scan0_def)
qed

theorem root_path_must_only_exist_witness:
  "resolve fs_root_file [''notes.txt''] = Inr (File m0 7)
   \<and> readTargets (Lines [''dist'']) = Inr [''dist'']
   \<and> main flags_prompt (Some [''notes.txt'']) (Lines [''dist'']) [] [] [] fs_root_file
       = (NoTargetsFound, fs_root_file)
   \<and> resolve fs_root_file [''gone''] = Inl ENOENT
   \<and> main flags_prompt (Some [''gone'']) (Lines [''dist'']) [] [] [] fs_root_file
       = (Fatal PathDoesNotExist, fs_root_file)"
proof -
  have r: "resolve fs_root_file [''notes.txt''] = Inr (File m0 7)"
    by (simp add: fs_root_file_def)
  have t: "readTargets (Lines [''dist'']) = Inr [''dist'']"
    by code_simp
  have g: "resolve fs_root_file [''gone''] = Inl ENOENT"
    by (simp add: fs_root_file_def)
  note th = root_path_must_only_exist [of flags_prompt _ "Lines [''dist'']" "[]" "[]" "[]" fs_root_file]
  from th [of "[''notes.txt'']"] r t
  have a: "main flags_prompt (Some [''notes.txt'']) (Lines [''dist'']) [] [] [] fs_root_file
       = (NoTargetsFound, fs_root_file)" by blast
  from th [of "[''gone'']"] g
  have b: "main flags_prompt (Some [''gone'']) (Lines [''dist'']) [] [] [] fs_root_file
       = (Fatal PathDoesNotExist, fs_root_file)" by blast
  show ?thesis using r t g a b by simp
qed

text \<open>
  The claim as stated fails: with a regular file as root path the run is not fatal.
\<close>

theorem root_regular_file_counterexample:
  "main flags_prompt (Some [''notes.txt'']) (Lines [''dist'']) [] [] [] fs_root_file
     = (NoTargetsFound, Dir m0 [(''notes.txt'', File m0 7)])"
  by code_simp

section \<open>The size estimator\<close>

lemma walk_sizeFn_gen:
  "fn = sizeFn \<Longrightarrow> walk fn p name n sz = (RNil, sz + acc_bytes n)"
  "fn = sizeFn \<Longrightarrow> walks fn p es sz = (RNil, sz + acc_entries es)"
proof (induction fn p name n sz and fn p es sz rule: walk_walks.induct)
  case (1 fn p name m s st)
  then show ?case by (simp add: sizeFn_def entry_of_def)
next
  case (2 fn p name m es st)
  then show ?case by (simp add: sizeFn_def entry_of_def)
next
  case (3 fn p st)
  then show ?case by simp
next
  case (4 fn p name c es st)
  show ?case
  proof (cases "statErr (node_meta c)")
    case True
    have "fn (p @ [name]) None (Some EACCES) st = (RNil, st)"
      using 4(4) by (simp add: sizeFn_def)
    then show ?thesis using True 4 by simp
  next
    case False
    have "walk fn (p @ [name]) name c st = (RNil, st + acc_bytes c)"
      using 4(2) [OF False 4(4)] .
    then show ?thesis using False 4 by (simp add: add.assoc)
  qed
qed

lemma Walk_sizeFn: "Walk fs p sizeFn 0 = (RNil, accessible_bytes fs p)"
  by (simp add: Walk_def accessible_bytes_def walk_sizeFn_gen sizeFn_def split: sum.splits)

text \<open>
  Claim C4, as amended. \<open>dirSize\<close> never aborts early: for every filesystem and path it
  returns the byte sum of all the accessible non-directory entries, and the error it
  returns is always \<open>nil\<close>, whether traversal errors occurred or not. The size that
  \<open>lstat\<close> reports for a directory is never part of the sum.
\<close>

theorem dirSize_sum_and_nil: "dirSize fs p = (accessible_bytes fs p, RNil)"
  by (simp add: dirSize_def Walk_sizeFn)

text \<open>
  The claim as stated fails: a walk that meets a traversal error still returns \<open>nil\<close>,
  not the first error.
\<close>

theorem dirSize_first_error_counterexample:
  "traversal_errors fs_locked_sub [''proj'', ''dist'']
     = [([''proj'', ''dist'', ''locked''], EREADDIR)]
   \<and> dirSize fs_locked_sub [''proj'', ''dist''] = (250, RNil)"
  by code_simp

section \<open>The scan\<close>

lemma walkDir_scanFn_gen:
  "fn = scanFn v ts \<Longrightarrow>
     walkDir fn p name n st =
       (RNil, st\<lparr>dirsToDelete := dirsToDelete st @ top_matches ts p name n,
                 scanErrors := scanErrors st @ (if v then unreadable ts p name n else [])\<rparr>)"
  "fn = scanFn v ts \<Longrightarrow>
     walkDirs fn p es st =
       (RNil, st\<lparr>dirsToDelete := dirsToDelete st @ top_matches_in ts p es,
                 scanErrors := scanErrors st @ (if v then unreadable_in ts p es else [])\<rparr>)"
proof (induction fn p name n st and fn p es st rule: walkDir_walkDirs.induct)
  case (1 fn p name m s st)
  then show ?case by (simp add: scanFn_def entry_of_def)
next
  case (2 fn p name m es st)
  show ?case
  proof (cases "name \<in> set ts")
    case True
    then show ?thesis using 2(2) by (simp add: scanFn_def entry_of_def)
  next
    case False
    have a: "fn p (Some (entry_of name (Dir m es))) None st = (RNil, st)"
      using False 2(2) by (simp add: scanFn_def entry_of_def)
    let ?st2 = "if readErr m \<and> v then st\<lparr>scanErrors := scanErrors st @ [(p, EREADDIR)]\<rparr> else st"
    have b: "(if readErr m then fn p (Some (entry_of name (Dir m es))) (Some EREADDIR) st
              else (RNil, st)) = (RNil, ?st2)"
      using 2(2) by (simp add: scanFn_def)
    have "walkDirs fn p es ?st2 =
       (RNil, ?st2\<lparr>dirsToDelete := dirsToDelete ?st2 @ top_matches_in ts p es,
                 scanErrors := scanErrors ?st2 @ (if v then unreadable_in ts p es else [])\<rparr>)"
      by (rule 2(1) [OF a [symmetric] _ b [symmetric] _ 2(2)]) simp_all
    then show ?thesis using False a b by simp
  qed
next
  case (3 fn p st)
  then show ?case by simp
next
  case (4 fn p name c es st)
  let ?st1 = "st\<lparr>dirsToDelete := dirsToDelete st @ top_matches ts (p @ [name]) name c,
                 scanErrors := scanErrors st @ (if v then unreadable ts (p @ [name]) name c else [])\<rparr>"
  have a: "walkDir fn (p @ [name]) name c st = (RNil, ?st1)"
    by (rule 4(1) [OF 4(3)])
  have "walkDirs fn p es ?st1 =
       (RNil, ?st1\<lparr>dirsToDelete := dirsToDelete ?st1 @ top_matches_in ts p es,
                 scanErrors := scanErrors ?st1 @ (if v then unreadable_in ts p es else [])\<rparr>)"
    by (rule 4(2) [OF a [symmetric] _ 4(3)]) simp
  then show ?case using a by simp
qed

lemma scanPhase_eq:
  "scanPhase v ts fs root =
     (RNil, \<lparr>dirsToDelete = scan_matches ts fs root,
             scanErrors = (if v then access_errors ts fs root else [])\<rparr>)"
  by (simp add: scanPhase_def WalkDir_def scan_matches_def access_errors_def scan0_def
      walkDir_scanFn_gen scanFn_def split: sum.splits)



lemma dir_paths_prefix:
  "q \<in> set (dir_paths p n) \<Longrightarrow> prefix p q"
  "q \<in> set (dir_paths_in p es) \<Longrightarrow> strict_prefix p q"
proof (induction p n and p es rule: dir_paths_dir_paths_in.induct)
  case (4 p name c es)
  from 4(3) consider "q \<in> set (dir_paths (p @ [name]) c)" | "q \<in> set (dir_paths_in p es)"
    by auto
  then show ?case
  proof cases
    case 1
    then have "prefix (p @ [name]) q" by (rule 4(1))
    then show ?thesis by (auto simp: strict_prefix_def prefix_def)
  next
    case 2
    then show ?thesis by (rule 4(2))
  qed
qed auto

lemma base_snoc: "base (p @ [name]) = name"
  by (cases p) simp_all

lemma beneath_match_self: "\<not> beneath_match ts p p"
  by (auto simp: beneath_match_def in_set_prefixes)

lemma beneath_match_below:
  assumes "strict_prefix p q" "base p \<in> set ts"
  shows "beneath_match ts p q"
  using assms by (auto simp: beneath_match_def in_set_prefixes strict_prefix_def)

lemma beneath_match_step:
  assumes "prefix (p @ [name]) q" "base p \<notin> set ts"
  shows "beneath_match ts p q \<longleftrightarrow> beneath_match ts (p @ [name]) q"
proof
  assume "beneath_match ts p q"
  then obtain a where a: "prefix a q" "prefix p a" "a \<noteq> q" "base a \<in> set ts"
    by (auto simp: beneath_match_def in_set_prefixes)
  from a(2,4) assms(2) have "strict_prefix p a" by (auto simp: strict_prefix_def)
  then obtain x r where ar: "a = p @ x # r"
    by (metis strict_prefixE' append_Cons append_Nil append.assoc)
  from assms(1) a(1) ar have "x = name" by (auto simp: prefix_def)
  then have "prefix (p @ [name]) a" using ar by (simp add: prefix_def)
  then show "beneath_match ts (p @ [name]) q"
    using a by (auto simp: beneath_match_def in_set_prefixes)
next
  assume "beneath_match ts (p @ [name]) q"
  then obtain a where a: "prefix a q" "prefix (p @ [name]) a" "a \<noteq> q" "base a \<in> set ts"
    by (auto simp: beneath_match_def in_set_prefixes)
  from a(2) have "prefix p a" by (auto simp: prefix_def)
  then show "beneath_match ts p q"
    using a by (auto simp: beneath_match_def in_set_prefixes)
qed

lemma top_matches_iff:
  "name = base p \<Longrightarrow>
     q \<in> set (top_matches ts p name n)
       \<longleftrightarrow> q \<in> set (dir_paths p n) \<and> base q \<in> set ts \<and> \<not> beneath_match ts p q"
  "base p \<notin> set ts \<Longrightarrow>
     q \<in> set (top_matches_in ts p es)
       \<longleftrightarrow> q \<in> set (dir_paths_in p es) \<and> base q \<in> set ts \<and> \<not> beneath_match ts p q"
proof (induction ts p name n and ts p es rule: top_matches_top_matches_in.induct)
  case (1 ts p name m s)
  then show ?case by simp
next
  case (2 ts p name m es)
  show ?case
  proof (cases "name \<in> set ts")
    case True
    then show ?thesis
      using 2(2) beneath_match_self [of ts p] beneath_match_below [of p q ts]
        dir_paths_prefix(2) [of q p es]
      by auto
  next
    case False
    then have "base p \<notin> set ts" using 2(2) by simp
    from 2(1) [OF False this] False 2(2) show ?thesis by auto
  qed
next
  case (3 ts p)
  then show ?case by simp
next
  case (4 ts p name c es)
  have a: "q \<in> set (top_matches ts (p @ [name]) name c)
       \<longleftrightarrow> q \<in> set (dir_paths (p @ [name]) c) \<and> base q \<in> set ts
           \<and> \<not> beneath_match ts (p @ [name]) q"
    by (rule 4(1)) (simp add: base_snoc)
  have b: "q \<in> set (dir_paths (p @ [name]) c) \<Longrightarrow>
             beneath_match ts (p @ [name]) q \<longleftrightarrow> beneath_match ts p q"
    using beneath_match_step [OF dir_paths_prefix(1) 4(3)] by blast
  show ?case
    using a b 4(2) [OF 4(3)] by auto
qed

lemma top_matches_below:
  "q \<in> set (top_matches ts p name n) \<Longrightarrow> prefix p q"
  "q \<in> set (top_matches_in ts p es) \<Longrightarrow> \<exists>x \<in> fst ` set es. prefix (p @ [x]) q"
proof (induction ts p name n and ts p es rule: top_matches_top_matches_in.induct)
  case (2 ts p name m es)
  show ?case
  proof (cases "name \<in> set ts")
    case True
    then show ?thesis using 2(2) by simp
  next
    case False
    then have "q \<in> set (top_matches_in ts p es)" using 2(2) by simp
    from 2(1) [OF False this] show ?thesis by (auto simp: prefix_def)
  qed
next
  case (4 ts p name c es)
  then show ?case by auto
qed auto

lemma top_matches_distinct:
  "distinct_names n \<Longrightarrow> distinct (top_matches ts p name n)"
  "distinct (map fst es) \<Longrightarrow> distinct_names_in es \<Longrightarrow> distinct (top_matches_in ts p es)"
proof (induction ts p name n and ts p es rule: top_matches_top_matches_in.induct)
  case (4 ts p name c es)
  have d1: "distinct (top_matches ts (p @ [name]) name c)"
    using 4 by simp
  have d2: "distinct (top_matches_in ts p es)"
    using 4 by simp
  have "set (top_matches ts (p @ [name]) name c) \<inter> set (top_matches_in ts p es) = {}"
  proof (rule ccontr)
    assume "\<not> ?thesis"
    then obtain q where q1: "q \<in> set (top_matches ts (p @ [name]) name c)"
      and q2: "q \<in> set (top_matches_in ts p es)" by auto
    from top_matches_below(1) [OF q1] have a: "prefix (p @ [name]) q" .
    from top_matches_below(2) [OF q2] obtain x where x: "x \<in> fst ` set es" "prefix (p @ [x]) q"
      by auto
    from a x(2) have "x = name" by (auto simp: prefix_def append_eq_append_conv2 Cons_eq_append_conv)
    then show False using x(1) 4(3) by simp
  qed
  then show ?case using d1 d2 by simp
qed auto

text \<open>
  Claim C5. For every directory tree walked from an accessible root and every target
  list, the candidates are exactly the directories of the tree whose base name is in
  the target list (compared as strings, so by exact, case-sensitive match) and that do
  not lie beneath a matched directory; each is reported once (the entries of a
  directory having distinct names); and no candidate lies beneath another candidate: a
  matched directory is recorded and not descended into.
\<close>

theorem walk_reports_top_matches:
  assumes "os_Lstat fs root = Inr n"
  shows "(\<forall>q. q \<in> set (dirsToDelete (snd (scanPhase v ts fs root)))
             \<longleftrightarrow> q \<in> set (dir_paths root n) \<and> base q \<in> set ts \<and> \<not> beneath_match ts root q)
         \<and> (distinct_names n \<longrightarrow> distinct (dirsToDelete (snd (scanPhase v ts fs root))))
         \<and> (\<forall>q \<in> set (dirsToDelete (snd (scanPhase v ts fs root))).
              \<forall>q' \<in> set (dirsToDelete (snd (scanPhase v ts fs root))). \<not> strict_prefix q q')"
proof -
  let ?c = "dirsToDelete (snd (scanPhase v ts fs root))"
  have c: "?c = top_matches ts root (base root) n"
    using assms by (simp add: scanPhase_eq scan_matches_def)
  have m: "\<And>q. q \<in> set ?c
             \<longleftrightarrow> q \<in> set (dir_paths root n) \<and> base q \<in> set ts \<and> \<not> beneath_match ts root q"
    unfolding c by (rule top_matches_iff(1)) simp
  have d: "distinct_names n \<longrightarrow> distinct ?c"
    unfolding c by (simp add: top_matches_distinct(1))
  have s: "\<not> strict_prefix q q'" if "q \<in> set ?c" "q' \<in> set ?c" for q q'
  proof
    assume sp: "strict_prefix q q'"
    from that(1) have "prefix root q" "base q \<in> set ts"
      using m dir_paths_prefix(1) by blast+
    then have "beneath_match ts root q'"
      using sp by (auto simp: beneath_match_def in_set_prefixes strict_prefix_def)
    then show False using that(2) m by blast
  qed
  show ?thesis using m d s by blast
qed

theorem walk_reports_top_matches_witness:
  "os_Lstat fs_nested [''proj''] =
     Inr (Dir m0
        [(''Dist'', Dir m0 [(''x'', File m0 1)]),
         (''web'', Dir m0 [(''dist'', Dir m0 [(''node_modules'', Dir m0 [(''b'', File m0 200)])])])])
   \<and> [''proj'', ''web'', ''dist'']
       \<in> set (dirsToDelete (snd (scanPhase False [''node_modules'', ''dist''] fs_nested [''proj''])))
   \<and> [''proj'', ''web'', ''dist'', ''node_modules'']
       \<notin> set (dirsToDelete (snd (scanPhase False [''node_modules'', ''dist''] fs_nested [''proj''])))
   \<and> [''proj'', ''Dist'']
       \<notin> set (dirsToDelete (snd (scanPhase False [''node_modules'', ''dist''] fs_nested [''proj''])))
   \<and> distinct (dirsToDelete (snd (scanPhase False [''node_modules'', ''dist''] fs_nested [''proj''])))"
proof -
  let ?n = "Dir m0
        [(''Dist'', Dir m0 [(''x'', File m0 1)]),
         (''web'', Dir m0 [(''dist'', Dir m0 [(''node_modules'', Dir m0 [(''b'', File m0 200)])])])]"
  let ?ts = "[''node_modules'', ''dist'']"
  have h: "os_Lstat fs_nested [''proj''] = Inr ?n"
    by (simp add: os_Lstat_def fs_nested_def m0_def)
  note th = walk_reports_top_matches [OF h, of False ?ts]
  have p1: "[''proj'', ''web'', ''dist''] \<in> set (dir_paths [''proj''] ?n)"
    and p2: "base [''proj'', ''web'', ''dist''] \<in> set ?ts"
    and p3: "\<not> beneath_match ?ts [''proj''] [''proj'', ''web'', ''dist'']"
    and p4: "beneath_match ?ts [''proj''] [''proj'', ''web'', ''dist'', ''node_modules'']"
    and p5: "base [''proj'', ''Dist''] \<notin> set ?ts"
    and p6: "distinct_names ?n"
    by (simp_all add: beneath_match_def)
  show ?thesis using h th p1 p2 p3 p4 p5 p6 by blast
qed

section \<open>The deletion executor\<close>

lemma deleteWorker_eq:
  "i < length dirs \<Longrightarrow>
     deleteWorker dirs i fs =
       Some (\<lparr>dr_index = i, dr_err = fst (os_RemoveAll (dirs ! i) fs)\<rparr>,
             snd (os_RemoveAll (dirs ! i) fs))"
  by (simp add: deleteWorker_def split: prod.splits)

lemma RemoveAll_absent:
  "resolve fs p = Inl ENOENT \<Longrightarrow> os_RemoveAll p fs = (None, fs)"
  by (simp add: os_RemoveAll_def)

text \<open>
  Claim C7, as amended. The outcome of a candidate is the result of \<open>os.RemoveAll\<close>: a
  failure exactly when \<open>os.RemoveAll\<close> returns an error. For a candidate path that no
  longer exists when the deletion worker runs on it (resolving it gives \<open>ENOENT\<close>),
  \<open>os.RemoveAll\<close> returns \<open>nil\<close>:
  the outcome is a success, the filesystem is left as it is, and the collecting loop
  counts the candidate as deleted and adds its recorded size to the freed bytes.
\<close>

theorem vanished_candidate_is_success:
  assumes "i < length dirs"
  shows "deleteWorker dirs i fs =
           Some (\<lparr>dr_index = i, dr_err = fst (os_RemoveAll (dirs ! i) fs)\<rparr>,
                 snd (os_RemoveAll (dirs ! i) fs))
         \<and> (resolve fs (dirs ! i) = Inl ENOENT \<longrightarrow>
              deleteWorker dirs i fs = Some (\<lparr>dr_index = i, dr_err = None\<rparr>, fs)
              \<and> (i < length dsizes \<longrightarrow>
                   collectDelete dirs dsizes \<lparr>dr_index = i, dr_err = None\<rparr> (Some a) =
                     Some (a\<lparr>deletedCount := deletedCount a + 1,
                             deletedSize := deletedSize a + dsizes ! i\<rparr>)))"
  using assms by (simp add: deleteWorker_eq RemoveAll_absent collectDelete_def)

theorem vanished_candidate_is_success_witness:
  "(0::nat) < length [[''proj'', ''dist'']]
   \<and> resolve fs_root_file ([[''proj'', ''dist'']] ! 0) = Inl ENOENT
   \<and> deleteWorker [[''proj'', ''dist'']] 0 fs_root_file
       = Some (\<lparr>dr_index = 0, dr_err = None\<rparr>, fs_root_file)
   \<and> (0::nat) < length [200 :: int64]
   \<and> collectDelete [[''proj'', ''dist'']] [200] \<lparr>dr_index = 0, dr_err = None\<rparr> (Some deletion0)
       = Some (deletion0\<lparr>deletedCount := deletedCount deletion0 + 1,
                         deletedSize := deletedSize deletion0 + [200] ! 0\<rparr>)"
proof -
  have h1: "(0::nat) < length [[''proj'', ''dist'']]" by simp
  have h2: "resolve fs_root_file ([[''proj'', ''dist'']] ! 0) = Inl ENOENT"
    by (simp add: fs_root_file_def)
  have h3: "(0::nat) < length [200 :: int64]" by simp
  from vanished_candidate_is_success [OF h1, of fs_root_file "[200]" deletion0] h1 h2 h3
  show ?thesis by blast
qed

text \<open>
  The claim as stated fails: the deletion of a candidate that is no longer there is
  reported as a success, with its size counted as freed.
\<close>

theorem vanished_candidate_counterexample:
  "resolve fs_root_file [''proj'', ''dist''] = Inl ENOENT
   \<and> deletePhase flags_prompt [[''proj'', ''dist'']]
        \<lparr>totalSize = 200, dirSizes = [200], sizeErrors = []\<rparr> sched_one fs_root_file
      = (Completed \<lparr>totalSize = 200, dirSizes = [200], sizeErrors = []\<rparr>
           \<lparr>deletedCount = 1, deletedSize = 200, deleteErrors = []\<rparr>,
         Dir m0 [(''notes.txt'', File m0 7)])"
  by code_simp

section \<open>The worker pool\<close>

lemma pool_run_Nil [simp]: "pool_run proc [] p = p"
  by (simp add: pool_run_def)

lemma pool_run_Cons [simp]: "pool_run proc (a # sched) p = pool_run proc sched (pool_step proc a p)"
  by (simp add: pool_run_def)

lemma pool_run_append: "pool_run proc (s @ t) p = pool_run proc t (pool_run proc s p)"
  by (simp add: pool_run_def)

subsection \<open>A processing function that leaves the shared state alone\<close>

lemma pool_step_shared:
  assumes "\<And>x s r s'. proc x s = Some (r, s') \<Longrightarrow> s' = s"
  shows "shared (pool_step proc a p) = shared p"
  using assms
  by (auto simp: pool_step_def main_step_def worker_step_def
      split: actor.splits list.splits wstate.splits option.splits)

lemma pool_run_shared:
  assumes "\<And>x s r s'. proc x s = Some (r, s') \<Longrightarrow> s' = s"
  shows "shared (pool_run proc sched p) = shared p"
proof (induction sched arbitrary: p)
  case Nil
  show ?case by simp
next
  case (Cons a sched)
  show ?case by (simp add: Cons pool_step_shared [OF assms])
qed

subsection \<open>A pool without workers\<close>

lemma pool_step_no_workers:
  assumes "workers p = []" "\<not> crashed p"
  shows "pool_step proc a p = (case a of Main \<Rightarrow> main_step p | Worker i \<Rightarrow> p)"
  using assms by (simp add: pool_step_def worker_step_def split: actor.splits)

lemma pool_run_no_workers:
  assumes "workers p = []" "\<not> crashed p"
  shows "workers (pool_run proc sched p) = []
       \<and> \<not> crashed (pool_run proc sched p)
       \<and> resultsChan (pool_run proc sched p) = resultsChan p
       \<and> shared (pool_run proc sched p) = shared p
       \<and> unsent (pool_run proc sched p) = drop (count_list sched Main) (unsent p)
       \<and> (closed (pool_run proc sched p)
            \<longleftrightarrow> closed p \<or> length (unsent p) < count_list sched Main)"
  using assms
proof (induction sched arbitrary: p)
  case Nil
  then show ?case by simp
next
  case (Cons a sched)
  show ?case
  proof (cases a)
    case Main
    have s: "pool_step proc Main p = main_step p"
      using Cons.prems by (simp add: pool_step_no_workers)
    show ?thesis
    proof (cases "unsent p")
      case Nil
      let ?q = "p\<lparr>closed := True\<rparr>"
      have q: "main_step p = ?q" using Nil by (simp add: main_step_def)
      have "workers ?q = []" "\<not> crashed ?q" using Cons.prems by simp_all
      from Cons.IH [OF this] show ?thesis using Nil Main by (simp add: s q)
    next
      case (Cons x xs)
      let ?q = "p\<lparr>unsent := xs, workChan := workChan p @ [x]\<rparr>"
      have q: "main_step p = ?q" using Cons by (simp add: main_step_def)
      have "workers ?q = []" "\<not> crashed ?q" using Cons.prems by simp_all
      from Cons.IH [OF this] show ?thesis using Cons Main by (simp add: s q)
    qed
  next
    case (Worker i)
    have s: "pool_step proc (Worker i) p = p"
      using Cons.prems by (simp add: pool_step_no_workers)
    from Cons.IH [OF Cons.prems] show ?thesis using Worker by (simp add: s)
  qed
qed

lemma pool_no_workers:
  assumes "w \<le> 0"
  shows "pool proc w items sched s =
           (if length items < count_list sched Main then Returns [] else Hangs, s)"
proof -
  have "workers (pool_init w items s) = []" "\<not> crashed (pool_init w items s)"
    using assms by (simp_all add: pool_init_def)
  from pool_run_no_workers [OF this, of proc sched]
  show ?thesis
    by (auto simp: pool_def Let_def finished_def pool_init_def)
qed

subsection \<open>Every pool can run to its end\<close>

lemma sum_list_map_update:
  fixes f :: "'a \<Rightarrow> 'b::comm_monoid_add"
  shows "i < length ws \<Longrightarrow> sum_list (map f (ws[i := w])) + f (ws ! i) = sum_list (map f ws) + f w"
proof (induction ws arbitrary: i)
  case Nil
  then show ?case by simp
next
  case (Cons a ws)
  show ?case
  proof (cases i)
    case 0
    then show ?thesis by (simp add: ac_simps)
  next
    case (Suc j)
    then have "sum_list (map f (ws[j := w])) + f (ws ! j) = sum_list (map f ws) + f w"
      using Cons by simp
    then show ?thesis using Suc by (simp add: add.assoc)
  qed
qed

lemma Holding_in_update:
  "Holding y \<in> set (ws[i := w]) \<Longrightarrow> Holding y \<in> set ws \<or> w = Holding y"
  using set_update_subset_insert [of ws i w] by auto

lemma pool_step_good:
  assumes "\<forall>x \<in> pool_items p. \<forall>s. proc x s \<noteq> None" "\<not> crashed p"
  shows "\<not> crashed (pool_step proc a p) \<and> pool_items (pool_step proc a p) \<subseteq> pool_items p"
proof (cases a)
  case Main
  then show ?thesis using assms(2)
    by (auto simp: pool_step_def main_step_def pool_items_def split: list.splits)
next
  case (Worker i)
  show ?thesis
  proof (cases "i < length (workers p)")
    case False
    then show ?thesis using assms(2) Worker by (simp add: pool_step_def worker_step_def)
  next
    case True
    show ?thesis
    proof (cases "workers p ! i")
      case Waiting
      then show ?thesis using assms(2) Worker True
        by (auto simp: pool_step_def worker_step_def pool_items_def
            split: list.splits dest: Holding_in_update)
    next
      case (Holding x)
      then have "Holding x \<in> set (workers p)" using True by (metis nth_mem)
      then have "x \<in> pool_items p" by (simp add: pool_items_def)
      then obtain r s' where "proc x (shared p) = Some (r, s')"
        using assms(1) by (metis option.exhaust surj_pair)
      then show ?thesis using assms(2) Worker True Holding
        by (auto simp: pool_step_def worker_step_def pool_items_def dest: Holding_in_update)
    next
      case Exited
      then show ?thesis using assms(2) Worker True
        by (simp add: pool_step_def worker_step_def)
    qed
  qed
qed

lemma pool_run_good:
  assumes "\<forall>x \<in> pool_items p. \<forall>s. proc x s \<noteq> None" "\<not> crashed p"
  shows "\<not> crashed (pool_run proc sched p) \<and> pool_items (pool_run proc sched p) \<subseteq> pool_items p"
  using assms
proof (induction sched arbitrary: p)
  case Nil
  then show ?case by simp
next
  case (Cons a sched)
  from pool_step_good [OF Cons.prems]
  have g: "\<not> crashed (pool_step proc a p)" "pool_items (pool_step proc a p) \<subseteq> pool_items p"
    by simp_all
  then have "\<forall>x \<in> pool_items (pool_step proc a p). \<forall>s. proc x s \<noteq> None"
    using Cons.prems(1) by blast
  from Cons.IH [OF this g(1)] g(2) show ?case by auto
qed

lemma pool_progress:
  assumes "\<forall>x \<in> pool_items p. \<forall>s. proc x s \<noteq> None" "\<not> crashed p" "\<not> finished p"
  shows "\<exists>a. pool_measure (pool_step proc a p) < pool_measure p"
proof (cases "unsent p = [] \<and> closed p")
  case False
  then have "pool_measure (pool_step proc Main p) < pool_measure p"
    using assms(2)
    by (auto simp: pool_step_def main_step_def pool_measure_def split: list.splits)
  then show ?thesis ..
next
  case True
  then have "\<not> list_all (\<lambda>w. w = Exited) (workers p)"
    using assms(2,3) by (simp add: finished_def)
  then obtain i where i: "i < length (workers p)" "workers p ! i \<noteq> Exited"
    by (auto simp: list_all_length)
  note u = sum_list_map_update [OF i(1), of wcost]
  have "pool_measure (pool_step proc (Worker i) p) < pool_measure p"
  proof (cases "workers p ! i")
    case Waiting
    show ?thesis
    proof (cases "workChan p")
      case Nil
      then show ?thesis using assms(2) i True Waiting u [of Exited]
        by (simp add: pool_step_def worker_step_def pool_measure_def)
    next
      case (Cons x xs)
      then show ?thesis using assms(2) i Waiting u [of "Holding x"]
        by (simp add: pool_step_def worker_step_def pool_measure_def)
    qed
  next
    case (Holding x)
    then have "Holding x \<in> set (workers p)" using i(1) by (metis nth_mem)
    then have "x \<in> pool_items p" by (simp add: pool_items_def)
    then obtain r s' where "proc x (shared p) = Some (r, s')"
      using assms(1) by (metis option.exhaust surj_pair)
    then show ?thesis using assms(2) i Holding u [of Waiting]
      by (simp add: pool_step_def worker_step_def pool_measure_def)
  next
    case Exited
    then show ?thesis using i(2) by simp
  qed
  then show ?thesis ..
qed

lemma pool_can_finish:
  assumes "\<forall>x \<in> pool_items p. \<forall>s. proc x s \<noteq> None" "\<not> crashed p"
  shows "\<exists>sched. finished (pool_run proc sched p)"
  using assms
proof (induction "pool_measure p" arbitrary: p rule: less_induct)
  case less
  show ?case
  proof (cases "finished p")
    case True
    then have "finished (pool_run proc [] p)" by simp
    then show ?thesis ..
  next
    case False
    from pool_progress [OF less.prems False]
    obtain a where a: "pool_measure (pool_step proc a p) < pool_measure p" ..
    from pool_step_good [OF less.prems, of a]
    have g: "\<not> crashed (pool_step proc a p)" "pool_items (pool_step proc a p) \<subseteq> pool_items p"
      by simp_all
    then have "\<forall>x \<in> pool_items (pool_step proc a p). \<forall>s. proc x s \<noteq> None"
      using less.prems(1) by blast
    from less.hyps [OF a this g(1)]
    obtain sched where "finished (pool_run proc sched (pool_step proc a p))" ..
    then have "finished (pool_run proc (a # sched) p)" by simp
    then show ?thesis ..
  qed
qed

text \<open>
  Whatever has been scheduled so far, the schedule can go on so that the pool returns,
  as long as the processing function does not panic on the items submitted.
\<close>

lemma pool_returns:
  fixes proc :: "'a \<Rightarrow> 's \<Rightarrow> ('r \<times> 's) option"
  assumes "\<forall>x \<in> set items. \<forall>s. proc x s \<noteq> None"
  shows "\<exists>sched' rs s'. pool proc w items (sched @ sched') s = (Returns rs, s')"
proof -
  let ?p0 = "pool_init w items s :: ('a, 'r, 's) pool"
  have i: "pool_items ?p0 = set items" "\<not> crashed ?p0"
    by (simp_all add: pool_items_def pool_init_def)
  from pool_run_good [of ?p0 proc sched] i assms
  have g: "\<not> crashed (pool_run proc sched ?p0)"
    "\<forall>x \<in> pool_items (pool_run proc sched ?p0). \<forall>s. proc x s \<noteq> None"
    by auto
  from pool_can_finish [OF g(2) g(1)]
  obtain sched' where f: "finished (pool_run proc sched' (pool_run proc sched ?p0))" ..
  then have "pool proc w items (sched @ sched') s
      = (Returns (resultsChan (pool_run proc (sched @ sched') ?p0)),
         shared (pool_run proc (sched @ sched') ?p0))"
    by (simp add: pool_def Let_def pool_run_append finished_def)
  then show ?thesis by blast
qed

subsection \<open>One result for each item\<close>

lemma pool_step_pending:
  assumes "\<And>x s r s'. proc x s = Some (r, s') \<Longrightarrow> key r = x"
  shows "mset (map key (resultsChan (pool_step proc a p))) + pool_pending (pool_step proc a p)
         = mset (map key (resultsChan p)) + pool_pending p"
proof (cases "crashed p")
  case True
  then show ?thesis by (simp add: pool_step_def)
next
  case False
  show ?thesis
  proof (cases a)
    case Main
    then show ?thesis using False
      by (simp add: pool_step_def main_step_def pool_pending_def split: list.splits)
  next
    case (Worker i)
    show ?thesis
    proof (cases "i < length (workers p)")
      case outside: False
      then show ?thesis using False Worker by (simp add: pool_step_def worker_step_def)
    next
      case True
      note u = sum_list_map_update [OF True, of wheld]
      show ?thesis
      proof (cases "workers p ! i")
        case Waiting
        show ?thesis
        proof (cases "workChan p")
          case Nil
          then show ?thesis using False Worker True Waiting u [of Exited]
            by (simp add: pool_step_def worker_step_def pool_pending_def)
        next
          case (Cons x xs)
          then show ?thesis using False Worker True Waiting u [of "Holding x"]
            by (simp add: pool_step_def worker_step_def pool_pending_def)
        qed
      next
        case (Holding x)
        show ?thesis
        proof (cases "proc x (shared p)")
          case None
          then show ?thesis using False Worker True Holding
            by (simp add: pool_step_def worker_step_def pool_pending_def)
        next
          case (Some rs)
          obtain r s' where rs: "rs = (r, s')" by (cases rs)
          have "key r = x" using assms Some rs by simp
          then show ?thesis using False Worker True Holding Some rs u [of Waiting]
            by (simp add: pool_step_def worker_step_def pool_pending_def)
        qed
      next
        case Exited
        then show ?thesis using False Worker True
          by (simp add: pool_step_def worker_step_def)
      qed
    qed
  qed
qed

lemma pool_run_pending:
  assumes "\<And>x s r s'. proc x s = Some (r, s') \<Longrightarrow> key r = x"
  shows "mset (map key (resultsChan (pool_run proc sched p))) + pool_pending (pool_run proc sched p)
         = mset (map key (resultsChan p)) + pool_pending p"
proof (induction sched arbitrary: p)
  case Nil
  show ?case by simp
next
  case (Cons a sched)
  have "mset (map key (resultsChan (pool_run proc sched (pool_step proc a p))))
          + pool_pending (pool_run proc sched (pool_step proc a p))
        = mset (map key (resultsChan (pool_step proc a p))) + pool_pending (pool_step proc a p)"
    by (rule Cons.IH)
  also have "\<dots> = mset (map key (resultsChan p)) + pool_pending p"
    by (rule pool_step_pending [of proc key, OF assms])
  finally show ?case by simp
qed

lemma pool_step_inv:
  assumes "pool_inv p"
  shows "pool_inv (pool_step proc a p)"
proof (cases "crashed p")
  case True
  then show ?thesis using assms by (simp add: pool_step_def)
next
  case False
  show ?thesis
  proof (cases a)
    case Main
    then show ?thesis using False assms
      by (auto simp: pool_step_def main_step_def pool_inv_def split: list.splits)
  next
    case (Worker i)
    show ?thesis
    proof (cases "i < length (workers p)")
      case outside: False
      then show ?thesis using False Worker assms by (simp add: pool_step_def worker_step_def)
    next
      case True
      have e: "Exited \<in> set (workers p)"
        if "Exited \<in> set ((workers p)[i := w])" "w \<noteq> Exited" for w
        using that set_update_subset_insert [of "workers p" i w] by auto
      show ?thesis
      proof (cases "workers p ! i")
        case Waiting
        show ?thesis
        proof (cases "workChan p")
          case Nil
          then show ?thesis using False Worker True Waiting assms
            by (auto simp: pool_step_def worker_step_def pool_inv_def)
        next
          case (Cons x xs)
          have "Exited \<notin> set (workers p)" using Cons assms by (auto simp: pool_inv_def)
          then have "Exited \<notin> set ((workers p)[i := Holding x])" using e by blast
          then show ?thesis using False Worker True Waiting Cons assms
            by (simp add: pool_step_def worker_step_def pool_inv_def)
        qed
      next
        case (Holding x)
        show ?thesis
        proof (cases "proc x (shared p)")
          case None
          then show ?thesis using False Worker True Holding assms
            by (simp add: pool_step_def worker_step_def pool_inv_def)
        next
          case (Some rs)
          obtain r s' where rs: "rs = (r, s')" by (cases rs)
          have "Exited \<in> set ((workers p)[i := Waiting]) \<longrightarrow> Exited \<in> set (workers p)"
            using e by blast
          then show ?thesis using False Worker True Holding Some rs assms
            by (auto simp: pool_step_def worker_step_def pool_inv_def)
        qed
      next
        case Exited
        then show ?thesis using False Worker True assms
          by (simp add: pool_step_def worker_step_def)
      qed
    qed
  qed
qed

lemma pool_run_inv: "pool_inv p \<Longrightarrow> pool_inv (pool_run proc sched p)"
  by (induction sched arbitrary: p) (simp_all add: pool_step_inv)

lemma wheld_all_Exited: "\<forall>w \<in> set ws. w = Exited \<Longrightarrow> sum_list (map wheld ws) = {#}"
  by (induction ws) auto

lemma sum_list_replicate_empty: "sum_list (replicate n ({#} :: 'a multiset)) = {#}"
  by (induction n) auto

lemma pool_step_workers: "length (workers (pool_step proc a p)) = length (workers p)"
  by (auto simp: pool_step_def main_step_def worker_step_def
      split: actor.splits list.splits wstate.splits option.splits)

lemma pool_run_workers: "length (workers (pool_run proc sched p)) = length (workers p)"
  by (induction sched arbitrary: p) (simp_all add: pool_step_workers)

lemma finished_pending:
  assumes "finished p" "pool_inv p" "workers p \<noteq> []"
  shows "pool_pending p = {#}"
proof -
  have all: "\<forall>w \<in> set (workers p). w = Exited"
    using assms(1) by (simp add: finished_def list_all_iff)
  then have "Exited \<in> set (workers p)" using assms(3) by (cases "workers p") auto
  then have "workChan p = []" using assms(2) by (simp add: pool_inv_def)
  moreover have "unsent p = []" using assms(1) by (simp add: finished_def)
  moreover have "sum_list (map wheld (workers p)) = {#}"
    using all by (rule wheld_all_Exited)
  ultimately show ?thesis by (simp add: pool_pending_def)
qed

text \<open>
  With at least one worker, a pool that returns has produced exactly one result for
  each item submitted, whatever the schedule: the keys of the results are the items.
\<close>

lemma pool_results_complete:
  fixes proc :: "'a \<Rightarrow> 's \<Rightarrow> ('r \<times> 's) option"
  assumes "\<And>x s r s'. proc x s = Some (r, s') \<Longrightarrow> key r = x"
    and "0 < w"
    and "pool proc w items sched s = (Returns rs, s')"
  shows "mset (map key rs) = mset items"
proof -
  let ?p0 = "pool_init w items s :: ('a, 'r, 's) pool"
  let ?q = "pool_run proc sched ?p0"
  have f: "finished ?q" and rs: "rs = resultsChan ?q"
    using assms(3) by (auto simp: pool_def Let_def split: if_splits)
  have "pool_inv ?p0" by (simp add: pool_inv_def pool_init_def)
  then have i: "pool_inv ?q" by (rule pool_run_inv)
  have "length (workers ?q) = nat w"
    by (simp add: pool_run_workers pool_init_def)
  then have "workers ?q \<noteq> []" using assms(2) by auto
  from finished_pending [OF f i this] have e: "pool_pending ?q = {#}" .
  have "mset (map key (resultsChan ?q)) + pool_pending ?q
        = mset (map key (resultsChan ?p0)) + pool_pending ?p0"
    by (rule pool_run_pending [of proc key, OF assms(1)])
  moreover have "pool_pending ?p0 = mset items"
    by (simp add: pool_pending_def pool_init_def sum_list_replicate_empty)
  moreover have "resultsChan ?p0 = []" by (simp add: pool_init_def)
  ultimately show ?thesis unfolding rs e by simp
qed

section \<open>A run without workers\<close>

text \<open>
  Claim C10. In a run with a worker count of zero or less and a non-empty candidate
  list, both pools start no worker and return the empty result list as soon as \<open>main\<close>
  has sent the items and closed the work channel (a schedule with more steps of \<open>main\<close>
  than there are items), without blocking. The total size reported is 0, the filesystem
  is left as it is, and the run ends: with the dry-run summary, with the cancellation,
  or with the final report of no directory deleted and no byte freed.
\<close>

theorem no_workers_no_work:
  assumes "maxWorkers fl \<le> 0"
    and "resolve fs root \<noteq> Inl ENOENT"
    and "readTargets tf = Inr ts"
    and "scanPhase (verbose fl) ts fs root = (r, sc)"
    and "dirsToDelete sc \<noteq> []"
    and "length (dirsToDelete sc) < count_list s1 Main"
    and "length (dirsToDelete sc) < count_list s2 Main"
  shows "pool sizeWorker (maxWorkers fl) (dirsToDelete sc) s1 fs = (Returns [], fs)
       \<and> pool (deleteWorker (dirsToDelete sc)) (maxWorkers fl) [0..<length (dirsToDelete sc)] s2 fs
           = (Returns [], fs)
       \<and> main fl (Some root) tf inp s1 s2 fs =
           (if dryRun fl then DryRunCompleted sizes0
            else if confirmed fl inp then Completed sizes0 deletion0
            else Cancelled sizes0, fs)
       \<and> totalSize sizes0 = 0 \<and> deletedCount deletion0 = 0 \<and> deletedSize deletion0 = 0"
proof -
  have p1: "pool sizeWorker (maxWorkers fl) (dirsToDelete sc) s1 fs = (Returns [], fs)"
    using assms(1,6) by (simp add: pool_no_workers)
  have p2: "pool (deleteWorker (dirsToDelete sc)) (maxWorkers fl) [0..<length (dirsToDelete sc)] s2 fs
           = (Returns [], fs)"
    using assms(1,7) by (simp add: pool_no_workers)
  have r: "r = RNil" using assms(4) by (simp add: scanPhase_eq)
  have d: "deletePhase fl (dirsToDelete sc) sizes0 s2 fs = (Completed sizes0 deletion0, fs)"
    by (simp add: deletePhase_def p2)
  have "main fl (Some root) tf inp s1 s2 fs =
           (if dryRun fl then DryRunCompleted sizes0
            else if confirmed fl inp then Completed sizes0 deletion0
            else Cancelled sizes0, fs)"
    using assms(2,3,4,5) r
    by (simp add: main_def IsNotExist_Lstat p1 afterSummary_def d)
  then show ?thesis using p1 p2 by (simp add: sizes0_def deletion0_def)
qed

theorem no_workers_no_work_witness:
  "maxWorkers flags_no_workers \<le> 0
   \<and> resolve fs_one_dist [''proj''] \<noteq> Inl ENOENT
   \<and> readTargets (Lines [''dist'']) = Inr [''dist'']
   \<and> scanPhase (verbose flags_no_workers) [''dist''] fs_one_dist [''proj'']
       = (RNil, \<lparr>dirsToDelete = [[''proj'', ''dist'']], scanErrors = []\<rparr>)
   \<and> main flags_no_workers (Some [''proj'']) (Lines [''dist'']) [] [Main, Main] [Worker 0, Main, Main]
        fs_one_dist
       = (Completed sizes0 deletion0, fs_one_dist)"
proof -
  let ?sc = "\<lparr>dirsToDelete = [[''proj'', ''dist'']], scanErrors = []\<rparr>"
  have h1: "maxWorkers flags_no_workers \<le> 0" by (simp add: flags_no_workers_def)
  have h2: "resolve fs_one_dist [''proj''] \<noteq> Inl ENOENT" by (simp add: fs_one_dist_def)
  have h3: "readTargets (Lines [''dist'']) = Inr [''dist'']"
    by code_simp
  have h4: "scanPhase (verbose flags_no_workers) [''dist''] fs_one_dist [''proj''] = (RNil, ?sc)"
    by code_simp
  have h5: "dirsToDelete ?sc \<noteq> []" by simp
  have h6: "length (dirsToDelete ?sc) < count_list [Main, Main] Main" by simp
  have h7: "length (dirsToDelete ?sc) < count_list [Worker 0, Main, Main] Main" by simp
  have f: "\<not> dryRun flags_no_workers" "confirmed flags_no_workers []"
    by (simp_all add: flags_no_workers_def confirmed_def)
  from no_workers_no_work [OF h1 h2 h3 h4 h5 h6 h7, of "[]"] f h1 h2 h3 h4
  show ?thesis by simp
qed

section \<open>The size phase and the dry run\<close>

lemma sizeWorker_eq:
  "sizeWorker p fs =
     Some (\<lparr>sr_path = p, sr_size = accessible_bytes fs p, sr_err = RNil\<rparr>, fs)"
  by (simp add: sizeWorker_def dirSize_def Walk_sizeFn)

lemma size_pool_shared: "snd (pool sizeWorker w items sched fs) = fs"
proof -
  have "shared (pool_run sizeWorker sched (pool_init w items fs)) = fs"
    using pool_run_shared [of sizeWorker sched "pool_init w items fs"]
    by (simp add: sizeWorker_eq pool_init_def)
  then show ?thesis by (simp add: pool_def Let_def)
qed

lemma size_pool_no_panic: "fst (pool sizeWorker w items sched fs) \<noteq> Panics"
proof -
  have "\<not> crashed (pool_run sizeWorker sched (pool_init w items fs))"
    using pool_run_good [of "pool_init w items fs" sizeWorker sched]
    by (simp add: sizeWorker_eq pool_init_def)
  then show ?thesis by (simp add: pool_def Let_def)
qed

lemma size_pool_returns:
  "\<exists>sched' rs. pool sizeWorker w items (sched @ sched') fs = (Returns rs, fs)"
proof -
  have "\<forall>x \<in> set items. \<forall>s. sizeWorker x s \<noteq> None" by (simp add: sizeWorker_eq)
  from pool_returns [OF this, of w sched fs]
  obtain sched' rs s' where r: "pool sizeWorker w items (sched @ sched') fs = (Returns rs, s')"
    by blast
  then have "s' = fs" using size_pool_shared [of w items "sched @ sched'" fs] by simp
  then show ?thesis using r by blast
qed

lemma main_dry_run:
  assumes "dryRun fl"
  shows "main fl (Some root) tf inp s1 s2 fs =
           (if resolve fs root = Inl ENOENT then Fatal PathDoesNotExist
            else case readTargets tf of
                   Inl e \<Rightarrow> Fatal e
                 | Inr ts \<Rightarrow>
                     if scan_matches ts fs root = [] then NoTargetsFound
                     else (case fst (pool sizeWorker (maxWorkers fl) (scan_matches ts fs root) s1 fs) of
                             Hangs \<Rightarrow> Hung
                           | Panics \<Rightarrow> Panicked
                           | Returns rs \<Rightarrow> DryRunCompleted (fold (collectSize (verbose fl)) rs sizes0)),
            fs)"
proof (cases "resolve fs root = Inl ENOENT")
  case True
  then show ?thesis by (simp add: main_def IsNotExist_Lstat)
next
  case False
  show ?thesis
  proof (cases "readTargets tf")
    case (Inl e)
    then show ?thesis using False by (simp add: main_def IsNotExist_Lstat)
  next
    case (Inr ts)
    show ?thesis
    proof (cases "scan_matches ts fs root = []")
      case True
      then show ?thesis using False Inr by (simp add: main_def IsNotExist_Lstat scanPhase_eq)
    next
      case nonempty: False
      obtain e where e: "pool sizeWorker (maxWorkers fl) (scan_matches ts fs root) s1 fs = (e, fs)"
        using size_pool_shared [of "maxWorkers fl" "scan_matches ts fs root" s1 fs]
        by (metis prod.collapse)
      show ?thesis
        using False Inr nonempty e assms
        by (cases e) (simp_all add: main_def IsNotExist_Lstat scanPhase_eq afterSummary_def)
    qed
  qed
qed

text \<open>
  Claim C8. In a dry run the filesystem after the run is the filesystem before it,
  under every schedule of the size pool. The run never reaches the prompt or the
  deletion: it ends with a fatal error, with "no targets found" or with the dry-run
  summary, and every schedule can go on so that it does end. When candidates are
  found, it ends right after the summary.
\<close>

theorem dry_run_leaves_filesystem:
  assumes "dryRun fl"
  shows "snd (main fl absRoot tf inp s1 s2 fs) = fs
       \<and> (fst (main fl absRoot tf inp s1 s2 fs) = Hung
            \<or> ends_before_deletion (fst (main fl absRoot tf inp s1 s2 fs)))
       \<and> (\<exists>s1'. ends_before_deletion (fst (main fl absRoot tf inp (s1 @ s1') s2 fs)))
       \<and> (\<forall>root ts. absRoot = Some root \<and> resolve fs root \<noteq> Inl ENOENT
              \<and> readTargets tf = Inr ts \<and> scan_matches ts fs root \<noteq> []
            \<longrightarrow> (\<exists>s1' sz. main fl absRoot tf inp (s1 @ s1') s2 fs = (DryRunCompleted sz, fs)))"
proof (cases absRoot)
  case None
  then show ?thesis by (simp add: main_def)
next
  case (Some root)
  note m = main_dry_run [OF assms, of root tf inp _ s2 fs]
  have a: "snd (main fl absRoot tf inp s1 s2 fs) = fs"
    unfolding Some m by simp
  have b: "fst (main fl absRoot tf inp s1 s2 fs) = Hung
            \<or> ends_before_deletion (fst (main fl absRoot tf inp s1 s2 fs))"
    unfolding Some m using size_pool_no_panic [of "maxWorkers fl" _ s1 fs]
    by (auto split: sum.splits ended.splits)
  have d: "\<exists>s1' sz. main fl absRoot tf inp (s1 @ s1') s2 fs = (DryRunCompleted sz, fs)"
    if "resolve fs root \<noteq> Inl ENOENT" "readTargets tf = Inr ts" "scan_matches ts fs root \<noteq> []"
    for ts
  proof -
    from size_pool_returns [of "maxWorkers fl" "scan_matches ts fs root" s1 fs]
    obtain s1' rs where
      "pool sizeWorker (maxWorkers fl) (scan_matches ts fs root) (s1 @ s1') fs = (Returns rs, fs)"
      by blast
    then have "main fl absRoot tf inp (s1 @ s1') s2 fs
        = (DryRunCompleted (fold (collectSize (verbose fl)) rs sizes0), fs)"
      unfolding Some m using that by simp
    then show ?thesis by blast
  qed
  have c: "\<exists>s1'. ends_before_deletion (fst (main fl absRoot tf inp (s1 @ s1') s2 fs))"
  proof (cases "resolve fs root = Inl ENOENT")
    case True
    then show ?thesis unfolding Some m by simp
  next
    case False
    show ?thesis
    proof (cases "readTargets tf")
      case (Inl e)
      then show ?thesis unfolding Some m by simp
    next
      case (Inr ts)
      show ?thesis
      proof (cases "scan_matches ts fs root = []")
        case True
        then show ?thesis unfolding Some m using Inr by simp
      next
        case nonempty: False
        from d [OF False Inr nonempty] obtain s1' sz where
          "main fl absRoot tf inp (s1 @ s1') s2 fs = (DryRunCompleted sz, fs)" by blast
        then have "ends_before_deletion (fst (main fl absRoot tf inp (s1 @ s1') s2 fs))" by simp
        then show ?thesis ..
      qed
    qed
  qed
  show ?thesis using a b c d Some by blast
qed

theorem dry_run_leaves_filesystem_witness:
  "dryRun flags_dry
   \<and> main flags_dry (Some [''proj'']) (Lines [''dist'']) [] sched_one [] fs_one_dist
       = (DryRunCompleted \<lparr>totalSize = 200, dirSizes = [200], sizeErrors = []\<rparr>, fs_one_dist)"
proof -
  have h: "dryRun flags_dry" by (simp add: flags_dry_def)
  have e: "fst (main flags_dry (Some [''proj'']) (Lines [''dist'']) [] sched_one [] fs_one_dist)
       = DryRunCompleted \<lparr>totalSize = 200, dirSizes = [200], sizeErrors = []\<rparr>"
    by code_simp
  from dry_run_leaves_filesystem [OF h, of "Some [''proj'']" "Lines [''dist'']" "[]" sched_one "[]" fs_one_dist]
  have "snd (main flags_dry (Some [''proj'']) (Lines [''dist'']) [] sched_one [] fs_one_dist) = fs_one_dist"
    by blast
  with e h show ?thesis by (metis prod.collapse)
qed

section \<open>What the two pools deliver under every schedule\<close>

lemma pool_step_results_prop:
  assumes "\<And>x r s'. proc x s0 = Some (r, s') \<Longrightarrow> P r \<and> s' = s0"
    and "shared p = s0" and "\<forall>r \<in> set (resultsChan p). P r"
  shows "shared (pool_step proc a p) = s0 \<and> (\<forall>r \<in> set (resultsChan (pool_step proc a p)). P r)"
proof (cases "\<exists>i x r s'. a = Worker i \<and> \<not> crashed p \<and> i < length (workers p)
                \<and> workers p ! i = Holding x \<and> proc x (shared p) = Some (r, s')")
  case True
  then obtain i x r s' where h: "a = Worker i" "\<not> crashed p" "i < length (workers p)"
    "workers p ! i = Holding x" "proc x (shared p) = Some (r, s')" by blast
  from assms(1) [of x r s'] h(5) assms(2) have "P r" "s' = s0" by simp_all
  then show ?thesis using h assms(3) by (simp add: pool_step_def worker_step_def)
next
  case False
  then have "shared (pool_step proc a p) = shared p
      \<and> resultsChan (pool_step proc a p) = resultsChan p"
    by (auto simp: pool_step_def main_step_def worker_step_def
        split: actor.splits list.splits wstate.splits option.splits)
  then show ?thesis using assms(2,3) by simp
qed

lemma pool_run_results_prop:
  assumes "\<And>x r s'. proc x s0 = Some (r, s') \<Longrightarrow> P r \<and> s' = s0"
    and "shared p = s0" and "\<forall>r \<in> set (resultsChan p). P r"
  shows "shared (pool_run proc sched p) = s0 \<and> (\<forall>r \<in> set (resultsChan (pool_run proc sched p)). P r)"
  using assms(2,3)
proof (induction sched arbitrary: p)
  case Nil
  then show ?case by simp
next
  case (Cons a sched)
  from pool_step_results_prop [of proc s0 P, OF assms(1) Cons.prems]
  have "shared (pool_step proc a p) = s0" "\<forall>r \<in> set (resultsChan (pool_step proc a p)). P r"
    by simp_all
  from Cons.IH [OF this] show ?case by simp
qed

text \<open>
  The size pool, with at least one worker: when it returns, the results are, up to
  their order, the results of the candidates, one for each, and the filesystem is as
  before.
\<close>

lemma size_pool_results:
  assumes "0 < w" and "pool sizeWorker w dirs sched fs = (Returns rs, fs')"
  shows "mset rs = mset (map (size_result_of fs) dirs)" and "fs' = fs"
proof -
  have k: "mset (map sr_path rs) = mset dirs"
    by (rule pool_results_complete [of sizeWorker sr_path, OF _ assms]) (simp add: sizeWorker_eq)
  have "rs = resultsChan (pool_run sizeWorker sched (pool_init w dirs fs))"
    using assms(2) by (auto simp: pool_def Let_def split: if_splits)
  moreover have "\<forall>r \<in> set (resultsChan (pool_run sizeWorker sched (pool_init w dirs fs))).
                   r = size_result_of fs (sr_path r)"
    using pool_run_results_prop [of sizeWorker fs "\<lambda>r. r = size_result_of fs (sr_path r)"
        "pool_init w dirs fs" sched]
    by (simp add: sizeWorker_eq size_result_of_def pool_init_def)
  ultimately have e: "\<forall>r \<in> set rs. size_result_of fs (sr_path r) = r" by simp
  have "image_mset (\<lambda>r. size_result_of fs (sr_path r)) (mset rs) = image_mset (\<lambda>r. r) (mset rs)"
    by (rule image_mset_cong) (use e in auto)
  then have "mset rs = image_mset (\<lambda>r. size_result_of fs (sr_path r)) (mset rs)"
    by simp
  also have "\<dots> = image_mset (size_result_of fs) (mset (map sr_path rs))"
    by (simp add: image_mset.compositionality comp_def)
  also have "\<dots> = image_mset (size_result_of fs) (mset dirs)"
    by (simp only: k)
  finally show "mset rs = mset (map (size_result_of fs) dirs)" by simp
  show "fs' = fs" using size_pool_shared [of w dirs sched fs] assms(2) by simp
qed

lemma fold_collectSize:
  "fold (collectSize v) rs acc =
     \<lparr>totalSize = totalSize acc + sum_list (map (\<lambda>r. if sr_err r \<noteq> RNil then 0 else sr_size r) rs),
      dirSizes = dirSizes acc @ map (\<lambda>r. if sr_err r \<noteq> RNil then 0 else sr_size r) rs,
      sizeErrors = sizeErrors acc
         @ (if v then map (\<lambda>r. (sr_path r, sr_err r)) (filter (\<lambda>r. sr_err r \<noteq> RNil) rs) else [])\<rparr>"
proof (induction rs arbitrary: acc)
  case Nil
  show ?case by simp
next
  case (Cons r rs)
  let ?z = "\<lambda>r. if sr_err r \<noteq> RNil then 0 else sr_size r"
  have st: "totalSize (collectSize v r acc) = totalSize acc + ?z r"
    "dirSizes (collectSize v r acc) = dirSizes acc @ [?z r]"
    "sizeErrors (collectSize v r acc)
       = sizeErrors acc @ (if v \<and> sr_err r \<noteq> RNil then [(sr_path r, sr_err r)] else [])"
    by (simp_all add: collectSize_def Let_def)
  have "fold (collectSize v) (r # rs) acc = fold (collectSize v) rs (collectSize v r acc)"
    by simp
  also have "\<dots> =
     \<lparr>totalSize = totalSize (collectSize v r acc) + sum_list (map ?z rs),
      dirSizes = dirSizes (collectSize v r acc) @ map ?z rs,
      sizeErrors = sizeErrors (collectSize v r acc)
         @ (if v then map (\<lambda>r. (sr_path r, sr_err r)) (filter (\<lambda>r. sr_err r \<noteq> RNil) rs) else [])\<rparr>"
    by (rule Cons)
  also have "\<dots> =
     \<lparr>totalSize = totalSize acc + sum_list (map ?z (r # rs)),
      dirSizes = dirSizes acc @ map ?z (r # rs),
      sizeErrors = sizeErrors acc
         @ (if v then map (\<lambda>r. (sr_path r, sr_err r)) (filter (\<lambda>r. sr_err r \<noteq> RNil) (r # rs)) else [])\<rparr>"
    unfolding st by (simp add: add.assoc)
  finally show ?case .
qed

text \<open>
  The summary of the size phase: the total is the sum of the sizes of the candidates
  whatever the order of arrival, and \<open>dirSizes\<close> holds the sizes of the candidates in
  some order.
\<close>

lemma size_phase_summary:
  assumes "0 < w" and "pool sizeWorker w dirs sched fs = (Returns rs, fs')"
  shows "totalSize (fold (collectSize v) rs sizes0) = sum_list (map (accessible_bytes fs) dirs)"
    and "mset (dirSizes (fold (collectSize v) rs sizes0)) = mset (map (accessible_bytes fs) dirs)"
    and "length (dirSizes (fold (collectSize v) rs sizes0)) = length dirs"
    and "sizeErrors (fold (collectSize v) rs sizes0) = []"
proof -
  note m = size_pool_results(1) [OF assms]
  have ok: "\<forall>r \<in> set rs. sr_err r = RNil"
  proof
    fix r assume "r \<in> set rs"
    then have "r \<in># mset (map (size_result_of fs) dirs)" using m by (metis set_mset_mset)
    then show "sr_err r = RNil" by (auto simp: size_result_of_def)
  qed
  then have z: "map (\<lambda>r. if sr_err r \<noteq> RNil then 0 else sr_size r) rs = map sr_size rs"
    by simp
  have f: "filter (\<lambda>r. sr_err r \<noteq> RNil) rs = []" using ok by (simp add: filter_empty_conv)
  have s: "mset (map sr_size rs) = mset (map (accessible_bytes fs) dirs)"
  proof -
    have "mset (map sr_size rs) = image_mset sr_size (mset rs)" by simp
    also have "\<dots> = image_mset sr_size (mset (map (size_result_of fs) dirs))" by (simp only: m)
    also have "\<dots> = mset (map (accessible_bytes fs) dirs)"
      by (simp add: image_mset.compositionality comp_def size_result_of_def)
    finally show ?thesis .
  qed
  show "mset (dirSizes (fold (collectSize v) rs sizes0)) = mset (map (accessible_bytes fs) dirs)"
    unfolding fold_collectSize z using s by (simp add: sizes0_def)
  have "sum_list (map sr_size rs) = sum_mset (mset (map sr_size rs))"
    by (simp only: sum_mset_sum_list)
  also have "\<dots> = sum_list (map (accessible_bytes fs) dirs)"
    by (simp only: s sum_mset_sum_list)
  finally show "totalSize (fold (collectSize v) rs sizes0) = sum_list (map (accessible_bytes fs) dirs)"
    unfolding fold_collectSize z by (simp add: sizes0_def)
  have "length rs = length dirs"
    using m by (metis length_map size_mset)
  then show "length (dirSizes (fold (collectSize v) rs sizes0)) = length dirs"
    unfolding fold_collectSize by (simp add: sizes0_def)
  show "sizeErrors (fold (collectSize v) rs sizes0) = []"
    unfolding fold_collectSize f by (simp add: sizes0_def)
qed

lemma deleteWorker_index: "deleteWorker dirs i fs = Some (r, fs') \<Longrightarrow> dr_index r = i"
  by (auto simp: deleteWorker_def split: if_splits prod.splits)

text \<open>
  The deletion pool, with at least one worker: when it returns, every index of
  \<open>dirsToDelete\<close> has exactly one result, whatever the schedule.
\<close>

lemma delete_pool_results:
  assumes "0 < w" and "pool (deleteWorker dirs) w [0..<length dirs] sched fs = (Returns rs, fs')"
  shows "mset (map dr_index rs) = mset [0..<length dirs]"
  by (rule pool_results_complete [of "deleteWorker dirs" dr_index, OF _ assms])
     (rule deleteWorker_index)

lemma delete_pool_no_panic:
  "fst (pool (deleteWorker dirs) w [0..<length dirs] sched fs) \<noteq> Panics"
proof -
  let ?p0 = "pool_init w [0..<length dirs] fs :: (nat, deleteResult, node) pool"
  have "\<forall>x \<in> pool_items ?p0. \<forall>s. deleteWorker dirs x s \<noteq> None"
    by (auto simp: pool_items_def pool_init_def deleteWorker_def split: prod.splits)
  moreover have "\<not> crashed ?p0" by (simp add: pool_init_def)
  ultimately have "\<not> crashed (pool_run (deleteWorker dirs) sched ?p0)"
    using pool_run_good by blast
  then show ?thesis by (simp add: pool_def Let_def)
qed

lemma delete_pool_returns:
  "\<exists>sched' rs fs'. pool (deleteWorker dirs) w [0..<length dirs] (sched @ sched') fs = (Returns rs, fs')"
proof -
  have "\<forall>x \<in> set [0..<length dirs]. \<forall>s. deleteWorker dirs x s \<noteq> None"
    by (auto simp: deleteWorker_def split: prod.splits)
  from pool_returns [OF this] show ?thesis .
qed

lemma fold_collectDelete:
  assumes "\<forall>r \<in> set rs. dr_index r < length dirs \<and> dr_index r < length dsizes"
  shows "fold (collectDelete dirs dsizes) rs (Some a) =
     Some \<lparr>deletedCount = deletedCount a + length (filter (\<lambda>r. dr_err r = None) rs),
           deletedSize = deletedSize a
              + sum_list (map (\<lambda>r. dsizes ! dr_index r) (filter (\<lambda>r. dr_err r = None) rs)),
           deleteErrors = deleteErrors a
              @ concat (map (\<lambda>r. case dr_err r of None \<Rightarrow> [] | Some e \<Rightarrow> [(dirs ! dr_index r, e)]) rs)\<rparr>"
  using assms
proof (induction rs arbitrary: a)
  case Nil
  show ?case by simp
next
  case (Cons r rs)
  let ?a' = "case dr_err r of
               None \<Rightarrow> a\<lparr>deletedCount := deletedCount a + 1,
                          deletedSize := deletedSize a + dsizes ! dr_index r\<rparr>
             | Some e \<Rightarrow> a\<lparr>deleteErrors := deleteErrors a @ [(dirs ! dr_index r, e)]\<rparr>"
  have st: "collectDelete dirs dsizes r (Some a) = Some ?a'"
    using Cons.prems by (simp add: collectDelete_def split: option.splits)
  have rest: "\<forall>r \<in> set rs. dr_index r < length dirs \<and> dr_index r < length dsizes"
    using Cons.prems by simp
  have "fold (collectDelete dirs dsizes) (r # rs) (Some a)
        = fold (collectDelete dirs dsizes) rs (Some ?a')"
    by (simp only: fold_simps o_apply st)
  also note Cons.IH [OF rest, of ?a']
  finally show ?case by (cases "dr_err r") (simp_all add: add.assoc)
qed

text \<open>
  What the deletion phase reports, with at least one worker and a size for every
  candidate: the count of the results without error, and as bytes freed the sum of the
  entries of \<open>dirSizes\<close> at the indices of these results.
\<close>

lemma deletePhase_report:
  assumes "0 < maxWorkers fl" and "length (dirSizes sz) = length dirs"
    and "pool (deleteWorker dirs) (maxWorkers fl) [0..<length dirs] sched fs = (Returns rs, fs')"
  shows "deletePhase fl dirs sz sched fs =
     (Completed sz
        \<lparr>deletedCount = length (filter (\<lambda>r. dr_err r = None) rs),
         deletedSize = sum_list (map (\<lambda>r. dirSizes sz ! dr_index r) (filter (\<lambda>r. dr_err r = None) rs)),
         deleteErrors = concat (map (\<lambda>r. case dr_err r of None \<Rightarrow> []
                                       | Some e \<Rightarrow> [(dirs ! dr_index r, e)]) rs)\<rparr>,
      fs')"
proof -
  have "set (map dr_index rs) = set [0..<length dirs]"
    using delete_pool_results [OF assms(1,3)] by (metis set_mset_mset)
  then have "\<forall>r \<in> set rs. dr_index r < length dirs \<and> dr_index r < length (dirSizes sz)"
    using assms(2) by auto
  from fold_collectDelete [OF this, of deletion0] show ?thesis
    by (simp add: deletePhase_def assms(3) deletion0_def)
qed

text \<open>No run panics: no index is out of range and no callback reads a missing entry.\<close>

lemma deletePhase_no_panic:
  assumes "maxWorkers fl \<le> 0 \<or> length (dirSizes sz) = length dirs"
  shows "fst (deletePhase fl dirs sz sched fs) \<noteq> Panicked"
proof (cases "pool (deleteWorker dirs) (maxWorkers fl) [0..<length dirs] sched fs")
  case (Pair e fs')
  show ?thesis
  proof (cases e)
    case Hangs
    then show ?thesis using Pair by (simp add: deletePhase_def)
  next
    case Panics
    then show ?thesis using Pair delete_pool_no_panic [of dirs "maxWorkers fl" sched fs] by simp
  next
    case (Returns rs)
    show ?thesis
    proof (cases "0 < maxWorkers fl")
      case True
      then have "length (dirSizes sz) = length dirs" using assms by simp
      from deletePhase_report [OF True this] Pair Returns show ?thesis by simp
    next
      case False
      then have "pool (deleteWorker dirs) (maxWorkers fl) [0..<length dirs] sched fs
          = (if length [0..<length dirs] < count_list sched Main then Returns [] else Hangs, fs)"
        by (simp add: pool_no_workers)
      then have "rs = []" using Pair Returns by (simp split: if_splits)
      then show ?thesis using Pair Returns by (simp add: deletePhase_def)
    qed
  qed
qed

lemma main_found:
  assumes "resolve fs root \<noteq> Inl ENOENT" "readTargets tf = Inr ts" "scan_matches ts fs root \<noteq> []"
  shows "main fl (Some root) tf inp s1 s2 fs =
     (case fst (pool sizeWorker (maxWorkers fl) (scan_matches ts fs root) s1 fs) of
        Hangs \<Rightarrow> (Hung, fs)
      | Panics \<Rightarrow> (Panicked, fs)
      | Returns rs \<Rightarrow>
          afterSummary fl inp (scan_matches ts fs root)
            (fold (collectSize (verbose fl)) rs sizes0) s2 fs)"
proof -
  obtain e where e: "pool sizeWorker (maxWorkers fl) (scan_matches ts fs root) s1 fs = (e, fs)"
    using size_pool_shared [of "maxWorkers fl" "scan_matches ts fs root" s1 fs]
    by (metis prod.collapse)
  show ?thesis
    using assms e by (cases e) (simp_all add: main_def IsNotExist_Lstat scanPhase_eq)
qed

lemma main_nothing_found:
  assumes "resolve fs root = Inl ENOENT \<or> (\<exists>e. readTargets tf = Inl e)
           \<or> (\<exists>ts. readTargets tf = Inr ts \<and> scan_matches ts fs root = [])"
  shows "ends_before_deletion (fst (main fl (Some root) tf inp s1 s2 fs))"
    and "snd (main fl (Some root) tf inp s1 s2 fs) = fs"
  using assms
  by (auto simp: main_def IsNotExist_Lstat scanPhase_eq split: sum.splits)

lemma main_no_panic: "fst (main fl absRoot tf inp s1 s2 fs) \<noteq> Panicked"
proof (cases absRoot)
  case None
  then show ?thesis by (simp add: main_def)
next
  case (Some root)
  show ?thesis
  proof (cases "resolve fs root = Inl ENOENT \<or> (\<exists>e. readTargets tf = Inl e)
           \<or> (\<exists>ts. readTargets tf = Inr ts \<and> scan_matches ts fs root = [])")
    case True
    from main_nothing_found(1) [OF this, of fl inp s1 s2] show ?thesis
      unfolding Some by (cases "fst (main fl (Some root) tf inp s1 s2 fs)") simp_all
  next
    case False
    then obtain ts where f: "resolve fs root \<noteq> Inl ENOENT" "readTargets tf = Inr ts"
      "scan_matches ts fs root \<noteq> []"
      by (cases "readTargets tf") auto
    let ?dirs = "scan_matches ts fs root"
    note m = main_found [OF f, of fl inp s1 s2]
    obtain e where e: "pool sizeWorker (maxWorkers fl) ?dirs s1 fs = (e, fs)"
      using size_pool_shared [of "maxWorkers fl" ?dirs s1 fs] by (metis prod.collapse)
    show ?thesis
    proof (cases e)
      case Hangs
      then show ?thesis unfolding Some m e by simp
    next
      case Panics
      then show ?thesis using size_pool_no_panic [of "maxWorkers fl" ?dirs s1 fs] e by simp
    next
      case (Returns rs)
      let ?sz = "fold (collectSize (verbose fl)) rs sizes0"
      have "maxWorkers fl \<le> 0 \<or> length (dirSizes ?sz) = length ?dirs"
      proof (cases "0 < maxWorkers fl")
        case True
        from size_phase_summary(3) [OF True e [unfolded Returns]] show ?thesis by simp
      next
        case False
        then show ?thesis by simp
      qed
      from deletePhase_no_panic [OF this, of s2 fs]
      show ?thesis unfolding Some m e using Returns by (simp add: afterSummary_def)
    qed
  qed
qed

text \<open>
  Every run can end: whatever the two pools have been scheduled so far, their schedules
  can go on so that the run reaches one of its ends.
\<close>

lemma main_can_end:
  "\<exists>s1' s2'. fst (main fl absRoot tf inp (s1 @ s1') (s2 @ s2') fs) \<noteq> Hung"
proof (cases absRoot)
  case None
  then show ?thesis by (simp add: main_def)
next
  case (Some root)
  show ?thesis
  proof (cases "resolve fs root = Inl ENOENT \<or> (\<exists>e. readTargets tf = Inl e)
           \<or> (\<exists>ts. readTargets tf = Inr ts \<and> scan_matches ts fs root = [])")
    case True
    from main_nothing_found(1) [OF this, of fl inp "s1 @ []" "s2 @ []"]
    have "fst (main fl absRoot tf inp (s1 @ []) (s2 @ []) fs) \<noteq> Hung"
      unfolding Some by (cases "fst (main fl (Some root) tf inp (s1 @ []) (s2 @ []) fs)") simp_all
    then show ?thesis by blast
  next
    case False
    then obtain ts where f: "resolve fs root \<noteq> Inl ENOENT" "readTargets tf = Inr ts"
      "scan_matches ts fs root \<noteq> []"
      by (cases "readTargets tf") auto
    let ?dirs = "scan_matches ts fs root"
    from size_pool_returns [of "maxWorkers fl" ?dirs s1 fs]
    obtain s1' rs where r1: "pool sizeWorker (maxWorkers fl) ?dirs (s1 @ s1') fs = (Returns rs, fs)"
      by blast
    let ?sz = "fold (collectSize (verbose fl)) rs sizes0"
    from delete_pool_returns [of ?dirs "maxWorkers fl" s2 fs]
    obtain s2' drs fs' where
      r2: "pool (deleteWorker ?dirs) (maxWorkers fl) [0..<length ?dirs] (s2 @ s2') fs = (Returns drs, fs')"
      by blast
    have "fst (deletePhase fl ?dirs ?sz (s2 @ s2') fs) \<noteq> Hung"
      by (simp add: deletePhase_def r2 split: option.splits)
    then have "fst (main fl absRoot tf inp (s1 @ s1') (s2 @ s2') fs) \<noteq> Hung"
      unfolding Some main_found [OF f] r1 by (simp add: afterSummary_def)
    then show ?thesis by blast
  qed
qed

section \<open>A single worker keeps the order\<close>

lemma pool_step_queue:
  assumes "\<And>x s r s'. proc x s = Some (r, s') \<Longrightarrow> key r = x"
    and "length (workers p) = 1"
  shows "map key (resultsChan (pool_step proc a p)) @ pool_queue (pool_step proc a p)
         = map key (resultsChan p) @ pool_queue p"
proof -
  obtain w0 where w: "workers p = [w0]"
    using assms(2) by (cases "workers p") auto
  show ?thesis
  proof (cases "crashed p")
    case True
    then show ?thesis by (simp add: pool_step_def)
  next
    case False
    show ?thesis
    proof (cases a)
      case Main
      then show ?thesis using False
        by (simp add: pool_step_def main_step_def pool_queue_def split: list.splits)
    next
      case (Worker i)
      show ?thesis
      proof (cases "i = 0")
        case outside: False
        then show ?thesis using False Worker w by (simp add: pool_step_def worker_step_def)
      next
        case True
        show ?thesis
        proof (cases w0)
          case Waiting
          then show ?thesis using False Worker True w
            by (simp add: pool_step_def worker_step_def pool_queue_def split: list.splits)
        next
          case (Holding x)
          show ?thesis
          proof (cases "proc x (shared p)")
            case None
            then show ?thesis using False Worker True w Holding
              by (simp add: pool_step_def worker_step_def pool_queue_def)
          next
            case (Some rs)
            obtain r s' where rs: "rs = (r, s')" by (cases rs)
            have "key r = x" using assms(1) Some rs by simp
            then show ?thesis using False Worker True w Holding Some rs
              by (simp add: pool_step_def worker_step_def pool_queue_def)
          qed
        next
          case Exited
          then show ?thesis using False Worker True w
            by (simp add: pool_step_def worker_step_def)
        qed
      qed
    qed
  qed
qed

lemma pool_run_queue:
  assumes "\<And>x s r s'. proc x s = Some (r, s') \<Longrightarrow> key r = x"
    and "length (workers p) = 1"
  shows "map key (resultsChan (pool_run proc sched p)) @ pool_queue (pool_run proc sched p)
         = map key (resultsChan p) @ pool_queue p"
  using assms(2)
proof (induction sched arbitrary: p)
  case Nil
  show ?case by simp
next
  case (Cons a sched)
  have l: "length (workers (pool_step proc a p)) = 1"
    using Cons.prems by (simp add: pool_step_workers)
  have "map key (resultsChan (pool_run proc sched (pool_step proc a p)))
          @ pool_queue (pool_run proc sched (pool_step proc a p))
        = map key (resultsChan (pool_step proc a p)) @ pool_queue (pool_step proc a p)"
    by (rule Cons.IH [OF l])
  also have "\<dots> = map key (resultsChan p) @ pool_queue p"
    by (rule pool_step_queue [of proc key, OF assms(1) Cons.prems])
  finally show ?case by simp
qed

text \<open>
  With one worker the results arrive in the order of the items, whatever the schedule.
\<close>

lemma single_worker_in_order:
  fixes proc :: "'a \<Rightarrow> 's \<Rightarrow> ('r \<times> 's) option"
  assumes "\<And>x s r s'. proc x s = Some (r, s') \<Longrightarrow> key r = x"
    and "pool proc 1 items sched s = (Returns rs, s')"
  shows "map key rs = items"
proof -
  let ?p0 = "pool_init 1 items s :: ('a, 'r, 's) pool"
  let ?q = "pool_run proc sched ?p0"
  have f: "finished ?q" and rs: "rs = resultsChan ?q"
    using assms(2) by (auto simp: pool_def Let_def split: if_splits)
  have l0: "length (workers ?p0) = 1" by (simp add: pool_init_def)
  have "pool_inv ?p0" by (simp add: pool_inv_def pool_init_def)
  then have i: "pool_inv ?q" by (rule pool_run_inv)
  have l: "length (workers ?q) = 1" by (simp add: pool_run_workers pool_init_def)
  then obtain w0 where w: "workers ?q = [w0]" by (cases "workers ?q") auto
  then have e: "w0 = Exited" using f by (simp add: finished_def)
  then have "workChan ?q = []" "unsent ?q = []"
    using i f w by (simp_all add: pool_inv_def finished_def)
  then have q: "pool_queue ?q = []" using w e by (simp add: pool_queue_def)
  have "map key (resultsChan ?q) @ pool_queue ?q = map key (resultsChan ?p0) @ pool_queue ?p0"
    by (rule pool_run_queue [of proc key, OF assms(1) l0])
  then show ?thesis unfolding rs q by (simp add: pool_queue_def pool_init_def)
qed

text \<open>
  So with one worker \<open>dirSizes\<close> holds the size of each candidate at its index, and the
  bytes reported as freed are the sizes of the candidates deleted: the tally goes wrong
  only when sizes arrive out of order.
\<close>

lemma single_worker_dirSizes:
  assumes "pool sizeWorker 1 dirs sched fs = (Returns rs, fs')"
  shows "dirSizes (fold (collectSize v) rs sizes0) = map (accessible_bytes fs) dirs"
proof -
  have o: "map sr_path rs = dirs"
    by (rule single_worker_in_order [of sizeWorker sr_path, OF _ assms]) (simp add: sizeWorker_eq)
  have m: "mset rs = mset (map (size_result_of fs) dirs)"
    by (rule size_pool_results(1) [OF _ assms]) simp
  have r: "\<forall>r \<in> set rs. r = size_result_of fs (sr_path r)"
  proof
    fix r assume "r \<in> set rs"
    then have "r \<in># mset (map (size_result_of fs) dirs)" using m by (metis set_mset_mset)
    then show "r = size_result_of fs (sr_path r)" by (auto simp: size_result_of_def)
  qed
  then have "map (\<lambda>r. if sr_err r \<noteq> RNil then 0 else sr_size r) rs
      = map (\<lambda>r. accessible_bytes fs (sr_path r)) rs"
    by (intro map_cong refl) (metis sizeResult.select_convs(2,3) size_result_of_def)
  also have "\<dots> = map (accessible_bytes fs) (map sr_path rs)" by simp
  finally show ?thesis unfolding fold_collectSize o by (simp add: sizes0_def)
qed

section \<open>What is deleted stays deleted\<close>

lemma gone_Nil [simp]: "\<not> gone n []"
  by (simp add: gone_def)

lemma gone_File [simp]: "gone (File m s) (c # q)"
  by (simp add: gone_def)

lemma gone_Dir: "gone (Dir m es) (c # q) \<longleftrightarrow> (case map_of es c of None \<Rightarrow> True | Some x \<Rightarrow> gone x q)"
  by (simp add: gone_def split: option.splits)

lemma distinct_names_in_map_of:
  "distinct_names_in es \<Longrightarrow> map_of es c = Some x \<Longrightarrow> distinct_names x"
  by (induction es) (auto split: if_splits)

lemma distinct_names_resolve:
  "distinct_names fs \<Longrightarrow> resolve fs p = Inr n \<Longrightarrow> distinct_names n"
proof (induction p arbitrary: fs)
  case Nil
  then show ?case by simp
next
  case (Cons c p)
  show ?case
  proof (cases fs)
    case (File m s)
    then show ?thesis using Cons.prems by simp
  next
    case (Dir m es)
    then obtain x where x: "map_of es c = Some x" "resolve x p = Inr n"
      using Cons.prems(2) by (auto split: option.splits)
    then have "distinct_names x" using Cons.prems(1) Dir distinct_names_in_map_of by auto
    from Cons.IH [OF this x(2)] show ?thesis .
  qed
qed

subsection \<open>Removing a tree\<close>

lemma rmentries_names:
  "set (map fst (rmentries es)) \<subseteq> set (map fst es)"
  "distinct (map fst es) \<Longrightarrow> distinct (map fst (rmentries es))"
proof (induction es)
  case Nil
  { case 1 show ?case by simp }
  { case 2 show ?case by simp }
next
  case (Cons a es)
  obtain name c where a: "a = (name, c)" by (cases a)
  { case 1 show ?case using Cons.IH(1) a by (auto split: option.splits) }
  { case 2 show ?case using Cons.IH 2 a by (auto split: option.splits) }
qed

lemma map_of_rmentries:
  "distinct (map fst es) \<Longrightarrow>
     map_of (rmentries es) c = (case map_of es c of None \<Rightarrow> None | Some x \<Rightarrow> rmtree x)"
proof (induction es)
  case Nil
  show ?case by simp
next
  case (Cons a es)
  obtain name x where a: "a = (name, x)" by (cases a)
  have n: "name \<notin> set (map fst (rmentries es))"
    using Cons.prems a rmentries_names(1) [of es] by auto
  then have "map_of (rmentries es) name = None"
    by (simp add: map_of_eq_None_iff)
  then show ?case using Cons a by (auto split: option.splits)
qed

lemma rmtree_distinct:
  "distinct_names n \<Longrightarrow> rmtree n = Some n' \<Longrightarrow> distinct_names n'"
  "distinct_names_in es \<Longrightarrow> distinct_names_in (rmentries es)"
proof (induction n and es arbitrary: n' rule: rmtree_rmentries.induct)
  case (1 m s)
  then show ?case by (auto split: if_splits)
next
  case (2 m es)
  then show ?case by (auto simp: Let_def rmentries_names(2) split: if_splits)
next
  case 3
  show ?case by simp
next
  case (4 name c es)
  then show ?case by (auto split: option.splits)
qed

lemma rmtree_gone:
  "distinct_names n \<Longrightarrow> rmtree n = Some n' \<Longrightarrow> gone n q \<Longrightarrow> gone n' q"
proof (induction q arbitrary: n n')
  case Nil
  then show ?case by simp
next
  case (Cons c q)
  show ?case
  proof (cases n)
    case (File m s)
    then show ?thesis using Cons.prems by (auto split: if_splits)
  next
    case (Dir m es)
    then have n': "n' = Dir m (rmentries es)"
      using Cons.prems(2) by (auto simp: Let_def split: if_splits)
    have d: "distinct (map fst es)" "distinct_names_in es" using Cons.prems(1) Dir by simp_all
    show ?thesis
    proof (cases "map_of es c")
      case None
      then show ?thesis unfolding n' by (simp add: gone_Dir map_of_rmentries [OF d(1)])
    next
      case (Some x)
      show ?thesis
      proof (cases "rmtree x")
        case None
        then show ?thesis unfolding n' using Some by (simp add: gone_Dir map_of_rmentries [OF d(1)])
      next
        case x': (Some x')
        have "gone x q" using Cons.prems(3) Dir Some by (simp add: gone_Dir)
        moreover have "distinct_names x" using d(2) Some by (rule distinct_names_in_map_of)
        ultimately have "gone x' q" using Cons.IH x' by blast
        then show ?thesis unfolding n' using Some x'
          by (simp add: gone_Dir map_of_rmentries [OF d(1)])
      qed
    qed
  qed
qed


subsection \<open>Replacing the entry at a path\<close>

lemma map_of_replace_entry_other:
  "d \<noteq> c \<Longrightarrow> map_of (replace_entry c p r es) d = map_of es d"
  by (induction es) (auto split: option.splits)

lemma replace_entry_names:
  "set (map fst (replace_entry c p r es)) \<subseteq> set (map fst es)"
  "distinct (map fst es) \<Longrightarrow> distinct (map fst (replace_entry c p r es))"
proof (induction es)
  case Nil
  { case 1 show ?case by simp }
  { case 2 show ?case by simp }
next
  case (Cons a es)
  obtain name x where a: "a = (name, x)" by (cases a)
  { case 1 show ?case using Cons.IH(1) a by (auto split: option.splits) }
  { case 2 show ?case using Cons.IH 2 a by (auto split: option.splits) }
qed

lemma map_of_replace_entry_same:
  "distinct (map fst es) \<Longrightarrow>
     map_of (replace_entry c p r es) c =
       (case map_of es c of
          None \<Rightarrow> None
        | Some x \<Rightarrow> if p = [] then r else Some (replace_at p r x))"
proof (induction es)
  case Nil
  show ?case by simp
next
  case (Cons a es)
  obtain name x where a: "a = (name, x)" by (cases a)
  show ?case
  proof (cases "name = c")
    case True
    then have "c \<notin> set (map fst es)" using Cons.prems a by simp
    then have "map_of es c = None" by (simp add: map_of_eq_None_iff)
    then show ?thesis using True a by (auto split: option.splits)
  next
    case False
    then show ?thesis using Cons a by simp
  qed
qed

lemma replace_at_distinct:
  "distinct_names n \<Longrightarrow> (\<forall>n'. r = Some n' \<longrightarrow> distinct_names n') \<Longrightarrow>
     distinct_names (replace_at p r n)"
  "distinct_names_in es \<Longrightarrow> (\<forall>n'. r = Some n' \<longrightarrow> distinct_names n') \<Longrightarrow>
     distinct_names_in (replace_entry c p r es)"
proof (induction p r n and c p r es rule: replace_at_replace_entry.induct)
  case (1 r n)
  then show ?case by (cases n; cases r) auto
next
  case (2 c p r m s)
  then show ?case by simp
next
  case (3 c p r m es)
  then show ?case by (simp add: replace_entry_names(2))
next
  case (4 c p r)
  show ?case by simp
next
  case (5 c p r name x es)
  then show ?case by (auto split: option.splits)
qed

lemma replace_at_removed:
  "distinct_names fs \<Longrightarrow> resolve fs p = Inr n \<Longrightarrow> p \<noteq> [] \<Longrightarrow>
     gone (replace_at p None fs) p"
proof (induction p arbitrary: fs)
  case Nil
  then show ?case by simp
next
  case (Cons c p)
  show ?case
  proof (cases fs)
    case (File m s)
    then show ?thesis by simp
  next
    case (Dir m es)
    then obtain x where x: "map_of es c = Some x" "resolve x p = Inr n"
      using Cons.prems(2) by (auto split: option.splits)
    have d: "distinct (map fst es)" "distinct_names_in es" using Cons.prems(1) Dir by simp_all
    show ?thesis
    proof (cases "p = []")
      case True
      then show ?thesis using Dir x by (simp add: gone_Dir map_of_replace_entry_same [OF d(1)])
    next
      case False
      have "distinct_names x" using d(2) x(1) by (rule distinct_names_in_map_of)
      from Cons.IH [OF this x(2) False] show ?thesis
        using Dir x False by (simp add: gone_Dir map_of_replace_entry_same [OF d(1)])
    qed
  qed
qed

lemma replace_at_gone:
  assumes "distinct_names fs"
    and "\<And>n n' q'. resolve fs p = Inr n \<Longrightarrow> r = Some n' \<Longrightarrow> gone n q' \<Longrightarrow> gone n' q'"
    and "gone fs q"
  shows "gone (replace_at p r fs) q"
  using assms
proof (induction p arbitrary: fs q)
  case Nil
  show ?case
  proof (cases r)
    case None
    then show ?thesis using Nil.prems(3) by (cases fs; cases q) (simp_all add: gone_Dir)
  next
    case (Some n')
    then show ?thesis using Nil.prems(2) [of fs n' q] Nil.prems(3) by simp
  qed
next
  case (Cons c p)
  show ?case
  proof (cases fs)
    case (File m s)
    then show ?thesis using Cons.prems(3) by simp
  next
    case (Dir m es)
    have d: "distinct (map fst es)" "distinct_names_in es" using Cons.prems(1) Dir by simp_all
    show ?thesis
    proof (cases q)
      case Nil
      then show ?thesis using Cons.prems(3) by simp
    next
      case q: (Cons d q')
      show ?thesis
      proof (cases "d = c")
        case False
        then show ?thesis using Cons.prems(3) Dir q
          by (simp add: gone_Dir map_of_replace_entry_other)
      next
        case True
        show ?thesis
        proof (cases "map_of es c")
          case None
          then show ?thesis using Dir q True
            by (simp add: gone_Dir map_of_replace_entry_same [OF d(1)])
        next
          case (Some x)
          have gx: "gone x q'" using Cons.prems(3) Dir q True Some by (simp add: gone_Dir)
          have dx: "distinct_names x" using d(2) Some by (rule distinct_names_in_map_of)
          show ?thesis
          proof (cases "p = []")
            case empty: True
            show ?thesis
            proof (cases r)
              case None
              then show ?thesis using Dir q True Some empty
                by (simp add: gone_Dir map_of_replace_entry_same [OF d(1)])
            next
              case r: (Some n')
              have "resolve fs (c # p) = Inr x" using Dir Some empty by simp
              from Cons.prems(2) [OF this r gx] show ?thesis using Dir q True Some empty r
                by (simp add: gone_Dir map_of_replace_entry_same [OF d(1)])
            qed
          next
            case False
            have "gone (replace_at p r x) q'"
            proof (rule Cons.IH [OF dx _ gx])
              fix n n' q''
              assume "resolve x p = Inr n" "r = Some n'" "gone n q''"
              moreover have "resolve fs (c # p) = resolve x p" using Dir Some by simp
              ultimately show "gone n' q''" using Cons.prems(2) by simp
            qed
            then show ?thesis using Dir q True Some False
              by (simp add: gone_Dir map_of_replace_entry_same [OF d(1)])
          qed
        qed
      qed
    qed
  qed
qed

subsection \<open>\<open>os.RemoveAll\<close> and the deletion pool\<close>

lemma RemoveAll_distinct:
  assumes "distinct_names fs"
  shows "distinct_names (snd (os_RemoveAll p fs))"
proof (cases "resolve fs p")
  case (Inl e)
  then show ?thesis using assms by (simp add: os_RemoveAll_def)
next
  case (Inr n)
  have dn: "distinct_names n" using assms Inr by (rule distinct_names_resolve)
  show ?thesis
  proof (cases "rmtree n")
    case None
    then show ?thesis using Inr assms by (simp add: os_RemoveAll_def replace_at_distinct(1))
  next
    case (Some n')
    have "distinct_names n'" using dn Some by (rule rmtree_distinct(1))
    then show ?thesis using Inr Some assms by (simp add: os_RemoveAll_def replace_at_distinct(1))
  qed
qed

lemma RemoveAll_success_gone:
  assumes "distinct_names fs" and "os_RemoveAll p fs = (None, fs')"
  shows "gone fs' p"
proof (cases "resolve fs p")
  case (Inl e)
  then show ?thesis using assms(2) by (auto simp: os_RemoveAll_def gone_def split: if_splits)
next
  case (Inr n)
  then have r: "rmtree n = None" "p \<noteq> []" "fs' = replace_at p None fs"
    using assms(2) by (auto simp: os_RemoveAll_def split: option.splits if_splits)
  show ?thesis unfolding r(3) using assms(1) Inr r(2) by (rule replace_at_removed)
qed

lemma RemoveAll_keeps_gone:
  assumes "distinct_names fs" and "gone fs q"
  shows "gone (snd (os_RemoveAll p fs)) q"
proof (cases "resolve fs p")
  case (Inl e)
  then show ?thesis using assms(2) by (simp add: os_RemoveAll_def)
next
  case (Inr n)
  have dn: "distinct_names n" using assms(1) Inr by (rule distinct_names_resolve)
  show ?thesis
  proof (cases "rmtree n")
    case None
    have "gone (replace_at p None fs) q"
      by (rule replace_at_gone [OF assms(1) _ assms(2)]) simp
    then show ?thesis using Inr None by (simp add: os_RemoveAll_def)
  next
    case (Some n')
    have "gone (replace_at p (Some n') fs) q"
    proof (rule replace_at_gone [OF assms(1) _ assms(2)])
      fix m m' q'
      assume "resolve fs p = Inr m" "Some n' = Some m'" "gone m q'"
      then show "gone m' q'" using Inr dn Some rmtree_gone by auto
    qed
    then show ?thesis using Inr Some by (simp add: os_RemoveAll_def)
  qed
qed


lemma delete_step_gone:
  assumes "distinct_names (shared p)"
    and "\<forall>r \<in> set (resultsChan p). dr_err r = None \<longrightarrow> gone (shared p) (dirs ! dr_index r)"
  shows "distinct_names (shared (pool_step (deleteWorker dirs) a p))
       \<and> (\<forall>r \<in> set (resultsChan (pool_step (deleteWorker dirs) a p)).
             dr_err r = None \<longrightarrow> gone (shared (pool_step (deleteWorker dirs) a p)) (dirs ! dr_index r))"
proof (cases "\<exists>i x. a = Worker i \<and> \<not> crashed p \<and> i < length (workers p)
                \<and> workers p ! i = Holding x \<and> x < length dirs")
  case True
  then obtain i x where h: "a = Worker i" "\<not> crashed p" "i < length (workers p)"
    "workers p ! i = Holding x" "x < length dirs" by blast
  let ?res = "os_RemoveAll (dirs ! x) (shared p)"
  let ?r = "\<lparr>dr_index = x, dr_err = fst ?res\<rparr>"
  have st: "pool_step (deleteWorker dirs) a p
      = p\<lparr>resultsChan := resultsChan p @ [?r], shared := snd ?res,
           workers := (workers p)[i := Waiting]\<rparr>"
    using h by (simp add: pool_step_def worker_step_def deleteWorker_eq)
  have d: "distinct_names (snd ?res)" using assms(1) by (rule RemoveAll_distinct)
  have old: "\<forall>r \<in> set (resultsChan p). dr_err r = None \<longrightarrow> gone (snd ?res) (dirs ! dr_index r)"
    using assms RemoveAll_keeps_gone by blast
  have new: "dr_err ?r = None \<longrightarrow> gone (snd ?res) (dirs ! dr_index ?r)"
    using RemoveAll_success_gone [OF assms(1), of "dirs ! x" "snd ?res"]
    by (cases ?res) auto
  show ?thesis unfolding st using d old new by simp
next
  case False
  then have "shared (pool_step (deleteWorker dirs) a p) = shared p
      \<and> resultsChan (pool_step (deleteWorker dirs) a p) = resultsChan p"
    by (auto simp: pool_step_def main_step_def worker_step_def deleteWorker_def
        split: actor.splits list.splits wstate.splits option.splits if_splits)
  then show ?thesis using assms by simp
qed

lemma delete_run_gone:
  assumes "distinct_names (shared p)"
    and "\<forall>r \<in> set (resultsChan p). dr_err r = None \<longrightarrow> gone (shared p) (dirs ! dr_index r)"
  shows "\<forall>r \<in> set (resultsChan (pool_run (deleteWorker dirs) sched p)).
           dr_err r = None \<longrightarrow> gone (shared (pool_run (deleteWorker dirs) sched p)) (dirs ! dr_index r)"
  using assms
proof (induction sched arbitrary: p)
  case Nil
  then show ?case by simp
next
  case (Cons a sched)
  from delete_step_gone [OF Cons.prems, of a]
  have "distinct_names (shared (pool_step (deleteWorker dirs) a p))"
    "\<forall>r \<in> set (resultsChan (pool_step (deleteWorker dirs) a p)).
        dr_err r = None \<longrightarrow> gone (shared (pool_step (deleteWorker dirs) a p)) (dirs ! dr_index r)"
    by simp_all
  from Cons.IH [OF this] show ?case by simp
qed

text \<open>
  On a filesystem where the entries of a directory have distinct names, when the
  deletion pool returns, every candidate whose result carries no error no longer
  exists, whatever the schedule and the number of workers.
\<close>

lemma deleted_candidates_gone:
  assumes "distinct_names fs"
    and "pool (deleteWorker dirs) w [0..<length dirs] sched fs = (Returns rs, fs')"
  shows "\<forall>r \<in> set rs. dr_err r = None \<longrightarrow> gone fs' (dirs ! dr_index r)"
proof -
  let ?p0 = "pool_init w [0..<length dirs] fs :: (nat, deleteResult, node) pool"
  have rs: "rs = resultsChan (pool_run (deleteWorker dirs) sched ?p0)"
    and fs': "fs' = shared (pool_run (deleteWorker dirs) sched ?p0)"
    using assms(2) by (auto simp: pool_def Let_def split: if_splits)
  have "distinct_names (shared ?p0)" using assms(1) by (simp add: pool_init_def)
  moreover have "\<forall>r \<in> set (resultsChan ?p0). dr_err r = None \<longrightarrow> gone (shared ?p0) (dirs ! dr_index r)"
    by (simp add: pool_init_def)
  ultimately show ?thesis unfolding rs fs' by (rule delete_run_gone)
qed


text \<open>
  With one worker, a run that reaches its final report has it right: there is one
  deletion result for each candidate, the candidates whose result carries no error no
  longer exist, their number is the count reported, and the bytes reported as freed
  are the sum of their sizes as computed in the size phase.
\<close>

lemma single_worker_run_tally:
  assumes "maxWorkers fl = 1" and "distinct_names fs"
    and "resolve fs root \<noteq> Inl ENOENT" and "readTargets tf = Inr ts"
    and "scan_matches ts fs root \<noteq> []"
    and "main fl (Some root) tf inp s1 s2 fs = (Completed sz d, fs')"
  shows "\<exists>rs :: deleteResult list.
           mset (map dr_index rs) = mset [0..<length (scan_matches ts fs root)]
           \<and> (\<forall>r \<in> set rs. dr_err r = None \<longrightarrow> gone fs' (scan_matches ts fs root ! dr_index r))
           \<and> deletedCount d = length (filter (\<lambda>r. dr_err r = None) rs)
           \<and> deletedSize d =
                sum_list (map (\<lambda>r. accessible_bytes fs (scan_matches ts fs root ! dr_index r))
                              (filter (\<lambda>r. dr_err r = None) rs))"
proof -
  let ?dirs = "scan_matches ts fs root"
  note m = main_found [OF assms(3,4,5), of fl inp s1 s2]
  obtain e where e: "pool sizeWorker (maxWorkers fl) ?dirs s1 fs = (e, fs)"
    using size_pool_shared [of "maxWorkers fl" ?dirs s1 fs] by (metis prod.collapse)
  obtain rs1 where rs1: "e = Returns rs1"
    using assms(6) unfolding m e by (cases e) simp_all
  let ?sz = "fold (collectSize (verbose fl)) rs1 sizes0"
  have a: "afterSummary fl inp ?dirs ?sz s2 fs = (Completed sz d, fs')"
    using assms(6) unfolding m e rs1 by simp
  then have dp: "deletePhase fl ?dirs ?sz s2 fs = (Completed sz d, fs')"
    by (auto simp: afterSummary_def split: if_splits)
  obtain e2 fs2 where e2: "pool (deleteWorker ?dirs) (maxWorkers fl) [0..<length ?dirs] s2 fs = (e2, fs2)"
    by (cases "pool (deleteWorker ?dirs) (maxWorkers fl) [0..<length ?dirs] s2 fs")
  obtain rs where rs: "e2 = Returns rs"
    using dp unfolding deletePhase_def e2 by (cases e2) simp_all
  have w: "0 < maxWorkers fl" using assms(1) by simp
  have ds: "dirSizes ?sz = map (accessible_bytes fs) ?dirs"
    using single_worker_dirSizes [of ?dirs s1 fs rs1 fs "verbose fl"] e rs1 assms(1) by simp
  then have len: "length (dirSizes ?sz) = length ?dirs" by simp
  note rep = deletePhase_report [OF w len e2 [unfolded rs]]
  have d: "d = \<lparr>deletedCount = length (filter (\<lambda>r. dr_err r = None) rs),
         deletedSize = sum_list (map (\<lambda>r. dirSizes ?sz ! dr_index r) (filter (\<lambda>r. dr_err r = None) rs)),
         deleteErrors = concat (map (\<lambda>r. case dr_err r of None \<Rightarrow> []
                                       | Some e \<Rightarrow> [(?dirs ! dr_index r, e)]) rs)\<rparr>"
    and fs2: "fs' = fs2"
    using dp unfolding rep by auto
  have idx: "mset (map dr_index rs) = mset [0..<length ?dirs]"
    using delete_pool_results [OF w e2 [unfolded rs]] .
  then have "set (map dr_index rs) = set [0..<length ?dirs]" by (metis set_mset_mset)
  then have inr: "\<forall>r \<in> set rs. dr_index r < length ?dirs" by auto
  have g: "\<forall>r \<in> set rs. dr_err r = None \<longrightarrow> gone fs' (?dirs ! dr_index r)"
    unfolding fs2 using deleted_candidates_gone [OF assms(2) e2 [unfolded rs]] .
  have me: "map (\<lambda>r. dirSizes ?sz ! dr_index r) (filter (\<lambda>r. dr_err r = None) rs)
      = map (\<lambda>r. accessible_bytes fs (?dirs ! dr_index r)) (filter (\<lambda>r. dr_err r = None) rs)"
    using inr by (intro map_cong refl) (simp add: ds)
  have "deletedSize d
      = sum_list (map (\<lambda>r. dirSizes ?sz ! dr_index r) (filter (\<lambda>r. dr_err r = None) rs))"
    unfolding d by simp
  also have "\<dots> =
      sum_list (map (\<lambda>r. accessible_bytes fs (?dirs ! dr_index r)) (filter (\<lambda>r. dr_err r = None) rs))"
    by (simp only: me)
  finally have sz: "deletedSize d =
      sum_list (map (\<lambda>r. accessible_bytes fs (?dirs ! dr_index r)) (filter (\<lambda>r. dr_err r = None) rs))" .
  have cnt: "deletedCount d = length (filter (\<lambda>r. dr_err r = None) rs)"
    unfolding d by simp
  show ?thesis
    by (rule exI [of _ rs]) (intro conjI idx g cnt sz)
qed

section \<open>The sizes are collected in their order of arrival\<close>

text \<open>
  Claim C2, at an input where the code breaks it. The scan lists \<open>dist\<close> (200 bytes)
  before \<open>node_modules\<close> (100 bytes), so the candidates are in this order. Both size
  workers produce one result for each candidate, paired with its path; but the
  collecting loop drops the path and appends the sizes to \<open>dirSizes\<close> as they arrive.
  With two workers, the list is \<open>[100, 200]\<close> under one schedule and \<open>[200, 100]\<close> under
  another: the list of sizes depends on the order of arrival, and nothing in it pairs a
  size with its candidate.
\<close>

theorem size_list_follows_arrival_order:
  "pool sizeWorker 2 [[''proj'', ''dist''], [''proj'', ''node_modules'']] sched_swap fs_two
     = (Returns [\<lparr>sr_path = [''proj'', ''node_modules''], sr_size = 100, sr_err = RNil\<rparr>,
                 \<lparr>sr_path = [''proj'', ''dist''], sr_size = 200, sr_err = RNil\<rparr>],
        fs_two)
   \<and> dirSizes (fold (collectSize False)
         [\<lparr>sr_path = [''proj'', ''node_modules''], sr_size = 100, sr_err = RNil\<rparr>,
          \<lparr>sr_path = [''proj'', ''dist''], sr_size = 200, sr_err = RNil\<rparr>] sizes0)
       = [100, 200]
   \<and> pool sizeWorker 2 [[''proj'', ''dist''], [''proj'', ''node_modules'']] sched_fifo fs_two
     = (Returns [\<lparr>sr_path = [''proj'', ''dist''], sr_size = 200, sr_err = RNil\<rparr>,
                 \<lparr>sr_path = [''proj'', ''node_modules''], sr_size = 100, sr_err = RNil\<rparr>],
        fs_two)
   \<and> dirSizes (fold (collectSize False)
         [\<lparr>sr_path = [''proj'', ''dist''], sr_size = 200, sr_err = RNil\<rparr>,
          \<lparr>sr_path = [''proj'', ''node_modules''], sr_size = 100, sr_err = RNil\<rparr>] sizes0)
       = [200, 100]"
  by code_simp

text \<open>
  Claim C1, at an input where the code breaks it. The tree holds its entries in the
  order of a listing, sorted by name, so the scan finds \<open>dist\<close> (index 0, 200 bytes) and
  then \<open>node_modules\<close> (index 1, 100 bytes). The size of \<open>node_modules\<close> arrives first,
  so \<open>dirSizes\<close> is \<open>[100, 200]\<close>. The deletion fails on \<open>dist\<close> and removes
  \<open>node_modules\<close>. The loop that collects the deletions adds \<open>dirSizes[1]\<close>: the run
  reports 200 bytes freed, where the one candidate deleted had 100 bytes.
\<close>

theorem freed_bytes_of_wrong_candidate:
  "listed_in_order fs_two
   \<and> scanPhase False [''node_modules'', ''dist''] fs_two [''proj'']
     = (RNil, \<lparr>dirsToDelete = [[''proj'', ''dist''], [''proj'', ''node_modules'']],
               scanErrors = []\<rparr>)
   \<and> dirSize fs_two [''proj'', ''dist''] = (200, RNil)
   \<and> dirSize fs_two [''proj'', ''node_modules''] = (100, RNil)
   \<and> main flags_two (Some [''proj'']) (Lines [''node_modules'', ''dist'']) [] sched_swap sched_fifo
        fs_two
      = (Completed \<lparr>totalSize = 300, dirSizes = [100, 200], sizeErrors = []\<rparr>
           \<lparr>deletedCount = 1, deletedSize = 200,
              deleteErrors = [([''proj'', ''dist''], EREMOVE)]\<rparr>,
         Dir m0 [(''proj'', Dir m0
            [(''dist'', Dir m0 [(''b'', File (m0\<lparr>pinned := True\<rparr>) 200)])])])"
  by code_simp

end
